theory Spec2Isabelle
  imports Main "HOL-Library.Word"
begin

section \<open>The life engine of main.go: data model\<close>

text \<open>
  A cell is a byte (\<open>type Cell byte\<close>); the four named values are the constants of the
  \<open>iota\<close> block. Sums of cells in \<open>feed\<close> are byte sums and wrap at 256.
\<close>

type_synonym Cell = "8 word"

definition CellEmpty :: Cell where "CellEmpty = 0"
definition CellAlive :: Cell where "CellAlive = 1"
definition CellBorn :: Cell where "CellBorn = 2"
definition CellDying :: Cell where "CellDying = 3"

definition Columns :: int where "Columns = 640"
definition Rows_const :: int where "Rows_const = 320"
definition MaxTPS :: int where "MaxTPS = 60"

text \<open>The colour table, one RGBA entry per cell value; only its length is used by the engine.\<close>

definition Colors :: "(nat \<times> nat \<times> nat \<times> nat) list" where
  "Colors = [(0x34, 0x49, 0x5e, 0xff), (0x1e, 0x84, 0x49, 0xff),
             (0x27, 0xae, 0x60, 0xff), (0x64, 0x1e, 0x16, 0xff)]"

type_synonym Row = "Cell list"

record Board =
  Rows :: "Row list"

text \<open>
  \<open>Speed\<close> is a Go \<open>int\<close>, 64 bits wide on the 64-bit targets: its values are the integers
  of the signed 64-bit range, and \<open>processInput\<close> below writes out the wrap-around of
  \<open>Speed--\<close> and \<open>Speed++\<close> at the two ends of that range.
\<close>

record Game =
  Board :: Board
  FeedPhase :: bool
  Paused :: bool
  Speed :: int

text \<open>
  Every way the program can abort: the two explicit \<open>panic\<close> calls (with the values their
  messages print) and the run-time panics of slice indexing and of \<open>make\<close>.
\<close>

datatype panic =
    IndexOutOfRange
  | MakeSliceLen
  | WrongCellFeed Cell
  | WrongCellLifeOn Cell nat nat

definition bindP :: "panic + 'a \<Rightarrow> ('a \<Rightarrow> panic + 'b) \<Rightarrow> panic + 'b" where
  "bindP m f = (case m of Inl e \<Rightarrow> Inl e | Inr x \<Rightarrow> f x)"

text \<open>Reading \<open>xs[i]\<close> and writing \<open>xs[i] = v\<close> with Go's bounds check.\<close>

definition at :: "'a list \<Rightarrow> int \<Rightarrow> panic + 'a" where
  "at xs i = (if 0 \<le> i \<and> i < int (length xs) then Inr (xs ! nat i) else Inl IndexOutOfRange)"

definition put :: "'a list \<Rightarrow> int \<Rightarrow> 'a \<Rightarrow> panic + 'a list" where
  "put xs i v =
     (if 0 \<le> i \<and> i < int (length xs) then Inr (xs[nat i := v]) else Inl IndexOutOfRange)"

text \<open>
  \<open>make([]T, n)\<close>: a slice of \<open>n\<close> zero values; a negative length panics. In Go a length
  too large for the run-time system to allocate fails as well; that limit depends on the
  platform and is not represented: here every non-negative length succeeds. What is stated
  about the results of \<open>NewBoard\<close> itself is therefore stated for lengths up to those of the
  grid that the program creates (\<open>Columns\<close> by \<open>Rows_const\<close>).
\<close>

definition make_slice :: "int \<Rightarrow> 'a \<Rightarrow> panic + 'a list" where
  "make_slice n z = (if n < 0 then Inl MakeSliceLen else Inr (replicate (nat n) z))"

text \<open>
  A \<open>for\<close> loop over the given indices, threading the loop's state; the first panic of
  the body ends the loop.
\<close>

fun for_each :: "nat list \<Rightarrow> (nat \<Rightarrow> 's \<Rightarrow> panic + 's) \<Rightarrow> 's \<Rightarrow> panic + 's" where
  "for_each [] body s = Inr s"
| "for_each (k # ks) body s =
     (case body k s of Inl e \<Rightarrow> Inl e | Inr s' \<Rightarrow> for_each ks body s')"

section \<open>NewBoard, RandomFill, NewGame\<close>

definition NewBoard :: "int \<Rightarrow> int \<Rightarrow> panic + Board" where
  "NewBoard nColumns nRows =
     bindP (make_slice nRows []) (\<lambda>rows.
     bindP (for_each [0..<length rows]
              (\<lambda>i rows.
                 bindP (make_slice nColumns (0::Cell)) (\<lambda>r.
                 bindP (for_each [0..<nat nColumns] (\<lambda>j r. put r (int j) CellEmpty) r) (\<lambda>r.
                 put rows (int i) r)))
              rows) (\<lambda>rows.
     Inr \<lparr>Rows = rows\<rparr>))"

text \<open>
  \<open>rand.Intn(n)\<close> returns some value in \<open>[0, n)\<close>. The random source is a sequence of
  raw draws \<open>rnd 0, rnd 1, ...\<close>, consumed in order; the draw is reduced into the range.
\<close>

definition Intn :: "(nat \<Rightarrow> nat) \<Rightarrow> nat \<Rightarrow> nat \<Rightarrow> nat" where
  "Intn rnd k n = rnd k mod n"

fun RandomFill_row :: "(nat \<Rightarrow> nat) \<Rightarrow> nat \<Rightarrow> Row \<Rightarrow> Row \<times> nat" where
  "RandomFill_row rnd k [] = ([], k)"
| "RandomFill_row rnd k (c # cs) =
     (let (cs', k') = RandomFill_row rnd (Suc k) cs
      in (of_nat (Intn rnd k (length Colors)) # cs', k'))"

fun RandomFill_rows :: "(nat \<Rightarrow> nat) \<Rightarrow> nat \<Rightarrow> Row list \<Rightarrow> Row list" where
  "RandomFill_rows rnd k [] = []"
| "RandomFill_rows rnd k (row # rows) =
     (let (row', k') = RandomFill_row rnd k row in row' # RandomFill_rows rnd k' rows)"

definition RandomFill :: "(nat \<Rightarrow> nat) \<Rightarrow> Board \<Rightarrow> Board" where
  "RandomFill rnd b = b\<lparr>Rows := RandomFill_rows rnd 0 (Rows b)\<rparr>"

definition NewGame :: "(nat \<Rightarrow> nat) \<Rightarrow> int \<Rightarrow> int \<Rightarrow> panic + Game" where
  "NewGame rnd nColumns nRows =
     bindP (NewBoard nColumns nRows) (\<lambda>b.
     Inr \<lparr>Board = RandomFill rnd b, FeedPhase = False, Paused = False, Speed = 10\<rparr>)"

section \<open>processInput\<close>

text \<open>
  The three keys polled by \<open>processInput\<close>; the \<open>switch\<close> takes the first pressed one.
  \<open>ebiten.SetTPS\<close> hands the new speed to the host's tick loop, whose pacing is outside
  this model: the speed is read from the \<open>Speed\<close> field.

  \<open>wrap_int\<close> brings the result of an addition or subtraction back into the signed 64-bit
  range, as the machine does: one below the least value is the greatest value, one above
  the greatest is the least.
\<close>

definition wrap_int :: "int \<Rightarrow> int" where
  "wrap_int x = (x + 2 ^ 63) mod 2 ^ 64 - 2 ^ 63"

record keys =
  KeySpace :: bool
  KeyLeft :: bool
  KeyRight :: bool

definition processInput :: "keys \<Rightarrow> Game \<Rightarrow> Game" where
  "processInput ks g =
     (if KeySpace ks then g\<lparr>Paused := \<not> Paused g\<rparr>
      else if KeyLeft ks then
        (let s = wrap_int (Speed g - 1) in g\<lparr>Speed := (if s < 1 then 1 else s)\<rparr>)
      else if KeyRight ks then
        (let s = wrap_int (Speed g + 1)
         in g\<lparr>Speed := (if s > MaxTPS then MaxTPS else s)\<rparr>)
      else g)"

section \<open>feed: neighbour counting and the fate sweep\<close>

text \<open>The two wrapped neighbours of index \<open>i\<close> in a slice of length \<open>n\<close>.\<close>

definition wrap_prev :: "int \<Rightarrow> int \<Rightarrow> int" where
  "wrap_prev n i = (let i1 = i - 1 in if i1 < 0 then n - 1 else i1)"

definition wrap_next :: "int \<Rightarrow> int \<Rightarrow> int" where
  "wrap_next n i = (let i2 = i + 1 in if i2 \<ge> n then 0 else i2)"

text \<open>First inner loop: the sum of row \<open>i\<close> and its two wrapped neighbour rows, into \<open>tmp\<close>.\<close>

definition feed_rowsum :: "Row list \<Rightarrow> nat \<Rightarrow> Row \<Rightarrow> panic + Row" where
  "feed_rowsum rows i tmp =
     (let i1 = wrap_prev (int (length rows)) (int i);
          i2 = wrap_next (int (length rows)) (int i);
          row = rows ! i
      in for_each [0..<length row]
           (\<lambda>j tmp.
              bindP (at rows i1) (\<lambda>r1. bindP (at r1 (int j)) (\<lambda>a.
              bindP (at rows i2) (\<lambda>r2. bindP (at r2 (int j)) (\<lambda>b.
              put tmp (int j) (row ! j + a + b))))))
           tmp)"

text \<open>Second inner loop: the sum of three wrapped adjacent entries of \<open>tmp\<close>, minus the cell.\<close>

definition feed_colsum :: "Row \<Rightarrow> Row \<Rightarrow> panic + Row" where
  "feed_colsum tmp row =
     for_each [0..<length tmp]
       (\<lambda>j crow.
          (let j1 = wrap_prev (int (length tmp)) (int j);
               j2 = wrap_next (int (length tmp)) (int j)
           in bindP (at tmp j1) (\<lambda>a. bindP (at tmp j2) (\<lambda>b.
              bindP (at row (int j)) (\<lambda>c.
              put crow (int j) (tmp ! j + a + b - c))))))
       (replicate (length row) 0)"

definition feed_count :: "Row list \<Rightarrow> panic + Row list" where
  "feed_count rows =
     bindP (at rows 0) (\<lambda>r0.
     bindP (for_each [0..<length rows]
              (\<lambda>i (tmp, countBoard).
                 bindP (feed_rowsum rows i tmp) (\<lambda>tmp.
                 bindP (feed_colsum tmp (rows ! i)) (\<lambda>crow.
                 Inr (tmp, countBoard @ [crow]))))
              (replicate (length r0) 0, [])) (\<lambda>(tmp, countBoard).
     Inr countBoard))"

text \<open>
  The final sweep. \<open>feed_fate_cell\<close> is the body of the inner loop (the \<open>switch\<close> on the
  cell); the row is updated in place, cell by cell.
\<close>

definition feed_fate_cell :: "Row list \<Rightarrow> nat \<Rightarrow> nat \<Rightarrow> Row \<Rightarrow> panic + Row" where
  "feed_fate_cell countBoard i j row =
     bindP (at countBoard (int i)) (\<lambda>crow. bindP (at crow (int j)) (\<lambda>nbrs.
     (let cell = row ! j in
      if cell = CellEmpty then (if nbrs = 3 then put row (int j) CellBorn else Inr row)
      else if cell = CellAlive then
        (if nbrs < 2 \<or> nbrs > 3 then put row (int j) CellDying else Inr row)
      else Inl (WrongCellFeed cell))))"

definition feed_fate_row :: "Row list \<Rightarrow> nat \<Rightarrow> Row \<Rightarrow> panic + Row" where
  "feed_fate_row countBoard i row = for_each [0..<length row] (feed_fate_cell countBoard i) row"

definition feed_fate :: "Row list \<Rightarrow> Row list \<Rightarrow> panic + Row list" where
  "feed_fate countBoard rows =
     for_each [0..<length rows]
       (\<lambda>i rows. bindP (feed_fate_row countBoard i (rows ! i)) (\<lambda>row. Inr (rows[i := row])))
       rows"

definition feed :: "Game \<Rightarrow> panic + Game" where
  "feed g =
     bindP (feed_count (Rows (Board g))) (\<lambda>countBoard.
     bindP (feed_fate countBoard (Rows (Board g))) (\<lambda>rows.
     Inr (g\<lparr>Board := \<lparr>Rows = rows\<rparr>\<rparr>)))"

section \<open>lifeOn\<close>

text \<open>
  \<open>lifeOn_cell\<close> is the body of the inner loop. The loop state is the row, updated in
  place, together with the two counters; the result of \<open>lifeOn\<close> carries the counters that
  its log line prints.
\<close>

definition lifeOn_cell :: "nat \<Rightarrow> nat \<Rightarrow> Row \<times> nat \<times> nat \<Rightarrow> panic + Row \<times> nat \<times> nat" where
  "lifeOn_cell i j =
     (\<lambda>(row, empty, filled).
        (let cell = row ! j in
         if cell = CellEmpty \<or> cell = CellDying then
           bindP (put row (int j) CellEmpty) (\<lambda>row. Inr (row, empty + 1, filled))
         else if cell = CellBorn \<or> cell = CellAlive then
           bindP (put row (int j) CellAlive) (\<lambda>row. Inr (row, empty, filled + 1))
         else Inl (WrongCellLifeOn cell j i)))"

definition lifeOn_row :: "nat \<Rightarrow> Row \<times> nat \<times> nat \<Rightarrow> panic + Row \<times> nat \<times> nat" where
  "lifeOn_row i st = for_each [0..<length (fst st)] (lifeOn_cell i) st"

definition lifeOn :: "Game \<Rightarrow> panic + Game \<times> nat \<times> nat" where
  "lifeOn g =
     bindP (for_each [0..<length (Rows (Board g))]
              (\<lambda>i (rows, empty, filled).
                 bindP (lifeOn_row i (rows ! i, empty, filled)) (\<lambda>(row, empty, filled).
                 Inr (rows[i := row], empty, filled)))
              (Rows (Board g), 0, 0)) (\<lambda>(rows, empty, filled).
     Inr (g\<lparr>Board := \<lparr>Rows = rows\<rparr>\<rparr>, empty, filled))"

section \<open>Update and the tick loop\<close>

datatype subphase = Mark | Resolve

text \<open>
  One tick. Besides the new state the result names the method the tick called:
  \<open>Some Mark\<close> for \<open>feed\<close>, \<open>Some Resolve\<close> for \<open>lifeOn\<close>, \<open>None\<close> for the early return.
\<close>

definition Update :: "keys \<Rightarrow> Game \<Rightarrow> panic + subphase option \<times> Game" where
  "Update ks g0 =
     (let g = processInput ks g0 in
      if Paused g then Inr (None, g)
      else
        (let fp = FeedPhase g; g = g\<lparr>FeedPhase := \<not> fp\<rparr> in
         if fp then bindP (feed g) (\<lambda>g. Inr (Some Mark, g))
         else bindP (lifeOn g) (\<lambda>(g, empty, filled). Inr (Some Resolve, g))))"

text \<open>The host loop calls \<open>Update\<close> once per tick; \<open>RunGame\<close> collects what each tick ran.\<close>

fun RunGame :: "keys list \<Rightarrow> Game \<Rightarrow> panic + subphase option list \<times> Game" where
  "RunGame [] g = Inr ([], g)"
| "RunGame (ks # kss) g =
     bindP (Update ks g) (\<lambda>(ph, g).
     bindP (RunGame kss g) (\<lambda>(phs, g). Inr (ph # phs, g)))"

definition play :: "(nat \<Rightarrow> nat) \<Rightarrow> int \<Rightarrow> int \<Rightarrow> keys list \<Rightarrow> panic + subphase option list \<times> Game"
  where "play rnd nColumns nRows kss = bindP (NewGame rnd nColumns nRows) (RunGame kss)"

definition no_keys :: keys where
  "no_keys = \<lparr>KeySpace = False, KeyLeft = False, KeyRight = False\<rparr>"

section \<open>Predicates on boards and the reference neighbour count\<close>

text \<open>The steady cells, the four named cell values, and boards made of them.\<close>

definition steady_cell :: "Cell \<Rightarrow> bool" where
  "steady_cell c \<longleftrightarrow> c = CellEmpty \<or> c = CellAlive"

definition steady :: "Row list \<Rightarrow> bool" where
  "steady rows = list_all (list_all steady_cell) rows"

definition valid_cell :: "Cell \<Rightarrow> bool" where
  "valid_cell c \<longleftrightarrow> c = CellEmpty \<or> c = CellAlive \<or> c = CellBorn \<or> c = CellDying"

definition valid :: "Row list \<Rightarrow> bool" where
  "valid rows = list_all (list_all valid_cell) rows"

text \<open>A board is a \<open>W\<close>-column grid when every row has \<open>W\<close> cells.\<close>

definition rect :: "nat \<Rightarrow> Row list \<Rightarrow> bool" where
  "rect W rows = list_all (\<lambda>row. length row = W) rows"

text \<open>
  The reference count, written from the specification rather than from \<open>feed\<close>:
  \<open>value(Empty) = 0\<close>, \<open>value(Alive) = 1\<close>; the wrapped neighbour indices of \<open>i\<close> in a
  dimension of size \<open>n\<close> are \<open>(i - 1 + n) mod n\<close> and \<open>(i + 1) mod n\<close>; the naive scan adds
  the values of the eight surrounding positions.
\<close>

definition value_of :: "Cell \<Rightarrow> nat" where
  "value_of c = (if c = CellAlive then 1 else 0)"

definition neighborIndices :: "nat \<Rightarrow> nat \<Rightarrow> nat \<times> nat" where
  "neighborIndices n i = ((i + n - 1) mod n, (i + 1) mod n)"

definition naive_count :: "Row list \<Rightarrow> nat \<Rightarrow> nat \<Rightarrow> nat" where
  "naive_count rows i j =
     (let (up, down) = neighborIndices (length rows) i;
          (left, right) = neighborIndices (length (rows ! i)) j
      in sum_list (map (\<lambda>(r, c). value_of (rows ! r ! c))
           [(up, left), (up, j), (up, right),
            (i, left), (i, right),
            (down, left), (down, j), (down, right)]))"

section \<open>Closed forms of the loops\<close>

text \<open>
  What the loops of \<open>feed\<close> and \<open>lifeOn\<close> compute on a grid, as plain maps. They are
  proved equal to the loops below and are used only to reason about them.
\<close>

definition rowsum3 :: "Row list \<Rightarrow> nat \<Rightarrow> nat \<Rightarrow> Cell" where
  "rowsum3 rows i j =
     rows ! i ! j + rows ! fst (neighborIndices (length rows) i) ! j
       + rows ! snd (neighborIndices (length rows) i) ! j"

definition colsum3 :: "Row \<Rightarrow> Row \<Rightarrow> nat \<Rightarrow> Cell" where
  "colsum3 tmp row j =
     tmp ! j + tmp ! fst (neighborIndices (length tmp) j)
       + tmp ! snd (neighborIndices (length tmp) j) - row ! j"

definition count_table :: "Row list \<Rightarrow> Row list" where
  "count_table rows =
     map (\<lambda>i. map (colsum3 (map (rowsum3 rows i) [0..<length (rows ! i)]) (rows ! i))
                 [0..<length (rows ! i)])
         [0..<length rows]"

definition fate :: "Cell \<Rightarrow> Cell \<Rightarrow> Cell" where
  "fate cell nbrs =
     (if cell = CellEmpty then (if nbrs = 3 then CellBorn else cell)
      else if cell = CellAlive then (if nbrs < 2 \<or> nbrs > 3 then CellDying else cell)
      else cell)"

definition fate_table :: "Row list \<Rightarrow> Row list \<Rightarrow> Row list" where
  "fate_table countBoard rows =
     map (\<lambda>i. map (\<lambda>j. fate (rows ! i ! j) (countBoard ! i ! j)) [0..<length (rows ! i)])
         [0..<length rows]"

definition resolve :: "Cell \<Rightarrow> Cell" where
  "resolve c =
     (if c = CellEmpty \<or> c = CellDying then CellEmpty
      else if c = CellBorn \<or> c = CellAlive then CellAlive
      else c)"

section \<open>Runs of ticks and example boards\<close>

text \<open>
  The invariant of the tick loop: a nonempty grid of \<open>W\<close> columns holding only the four
  named cell values, and steady whenever the next sub-phase is \<open>feed\<close>.
\<close>

definition tick_inv :: "nat \<Rightarrow> Game \<Rightarrow> bool" where
  "tick_inv W g \<longleftrightarrow>
     Rows (Board g) \<noteq> [] \<and> rect W (Rows (Board g)) \<and> valid (Rows (Board g))
     \<and> (FeedPhase g \<longrightarrow> steady (Rows (Board g)))"

text \<open>The sub-phases of \<open>n\<close> successive unpaused ticks, starting with flag \<open>fp\<close>.\<close>

fun phases_from :: "bool \<Rightarrow> nat \<Rightarrow> subphase option list" where
  "phases_from fp 0 = []"
| "phases_from fp (Suc n) = Some (if fp then Mark else Resolve) # phases_from (\<not> fp) n"

text \<open>A game around a given grid, with the other fields as \<open>NewGame\<close> sets them.\<close>

definition game_of :: "Row list \<Rightarrow> Game" where
  "game_of rows = \<lparr>Board = \<lparr>Rows = rows\<rparr>, FeedPhase = False, Paused = False, Speed = 10\<rparr>"

text \<open>
  The 5 by 5 blinker: the horizontal triple, the board after the mark sub-phase, the board
  after the following resolve sub-phase, and the marked board with all three blinker cells
  Dying.
\<close>

definition blinker :: "Row list" where
  "blinker = [[0, 0, 0, 0, 0], [0, 0, 0, 0, 0], [0, 1, 1, 1, 0], [0, 0, 0, 0, 0], [0, 0, 0, 0, 0]]"

definition blinker_marked :: "Row list" where
  "blinker_marked =
     [[CellEmpty, CellEmpty, CellEmpty, CellEmpty, CellEmpty],
      [CellEmpty, CellEmpty, CellBorn, CellEmpty, CellEmpty],
      [CellEmpty, CellDying, CellAlive, CellDying, CellEmpty],
      [CellEmpty, CellEmpty, CellBorn, CellEmpty, CellEmpty],
      [CellEmpty, CellEmpty, CellEmpty, CellEmpty, CellEmpty]]"

definition blinker_resolved :: "Row list" where
  "blinker_resolved =
     [[CellEmpty, CellEmpty, CellEmpty, CellEmpty, CellEmpty],
      [CellEmpty, CellEmpty, CellAlive, CellEmpty, CellEmpty],
      [CellEmpty, CellEmpty, CellAlive, CellEmpty, CellEmpty],
      [CellEmpty, CellEmpty, CellAlive, CellEmpty, CellEmpty],
      [CellEmpty, CellEmpty, CellEmpty, CellEmpty, CellEmpty]]"

definition blinker_marked_claimed :: "Row list" where
  "blinker_marked_claimed =
     [[CellEmpty, CellEmpty, CellEmpty, CellEmpty, CellEmpty],
      [CellEmpty, CellEmpty, CellBorn, CellEmpty, CellEmpty],
      [CellEmpty, CellDying, CellDying, CellDying, CellEmpty],
      [CellEmpty, CellEmpty, CellBorn, CellEmpty, CellEmpty],
      [CellEmpty, CellEmpty, CellEmpty, CellEmpty, CellEmpty]]"

text \<open>Key states, and small games used as concrete inputs.\<close>

definition space_key :: keys where
  "space_key = \<lparr>KeySpace = True, KeyLeft = False, KeyRight = False\<rparr>"

definition left_key :: keys where
  "left_key = \<lparr>KeySpace = False, KeyLeft = True, KeyRight = False\<rparr>"

definition paused_game :: Game where
  "paused_game = \<lparr>Board = \<lparr>Rows = [[CellDying]]\<rparr>, FeedPhase = False, Paused = True, Speed = 10\<rparr>"

definition filled_game :: Game where
  "filled_game = \<lparr>Board = \<lparr>Rows = [[CellEmpty, CellAlive], [CellBorn, CellDying]]\<rparr>,
                   FeedPhase = False, Paused = False, Speed = 10\<rparr>"

definition resolved_game :: Game where
  "resolved_game = \<lparr>Board = \<lparr>Rows = [[CellEmpty, CellAlive], [CellAlive, CellEmpty]]\<rparr>,
                     FeedPhase = True, Paused = False, Speed = 10\<rparr>"

section \<open>Loop rules\<close>

lemma bindP_Inr [simp]: "bindP (Inr x) f = f x"
  by (simp add: bindP_def)

lemma bindP_Inl [simp]: "bindP (Inl e) f = Inl e"
  by (simp add: bindP_def)

lemma at_nat [simp]: "j < length xs \<Longrightarrow> at xs (int j) = Inr (xs ! j)"
  by (simp add: at_def)

lemma put_nat [simp]: "j < length xs \<Longrightarrow> put xs (int j) v = Inr (xs[j := v])"
  by (simp add: put_def)

lemma for_each_snoc:
  "for_each (ks @ [k]) body s = bindP (for_each ks body s) (body k)"
  by (induction ks arbitrary: s) (simp_all split: sum.splits)

lemma for_each_upt_prefix:
  assumes init: "I 0 s"
    and step: "\<And>k u. k < n \<Longrightarrow> I k u \<Longrightarrow>
                 (case body k u of Inl e \<Rightarrow> Q e | Inr u' \<Rightarrow> I (Suc k) u')"
  shows "m \<le> n \<Longrightarrow> (case for_each [0..<m] body s of Inl e \<Rightarrow> Q e | Inr t \<Rightarrow> I m t)"
proof (induction m)
  case 0
  show ?case using init by simp
next
  case (Suc m)
  then have prev: "case for_each [0..<m] body s of Inl e \<Rightarrow> Q e | Inr t \<Rightarrow> I m t"
    and lt: "m < n" by simp_all
  show ?case
  proof (cases "for_each [0..<m] body s")
    case (Inl e)
    with prev show ?thesis by (simp add: for_each_snoc)
  next
    case (Inr t)
    with prev have "I m t" by simp
    from step [OF lt this] Inr show ?thesis by (simp add: for_each_snoc)
  qed
qed

lemma for_each_upt_rule:
  assumes "I 0 s"
    and "\<And>k u. k < n \<Longrightarrow> I k u \<Longrightarrow>
           (case body k u of Inl e \<Rightarrow> Q e | Inr u' \<Rightarrow> I (Suc k) u')"
  shows "case for_each [0..<n] body s of Inl e \<Rightarrow> Q e | Inr t \<Rightarrow> I n t"
  using for_each_upt_prefix [where I = I and Q = Q, OF assms, of n] by simp

lemma for_each_upt_total:
  assumes "I 0 s"
    and "\<And>k u. k < n \<Longrightarrow> I k u \<Longrightarrow> \<exists>u'. body k u = Inr u' \<and> I (Suc k) u'"
  shows "\<exists>t. for_each [0..<n] body s = Inr t \<and> I n t"
proof -
  have "case for_each [0..<n] body s of Inl e \<Rightarrow> False | Inr t \<Rightarrow> I n t"
  proof (rule for_each_upt_rule [where I = I])
    show "I 0 s" by fact
  next
    fix k u assume "k < n" "I k u"
    from assms(2) [OF this] show "case body k u of Inl e \<Rightarrow> False | Inr u' \<Rightarrow> I (Suc k) u'"
      by auto
  qed
  then show ?thesis by (cases "for_each [0..<n] body s") simp_all
qed

text \<open>A loop that stores \<open>f k\<close> at index \<open>k\<close> of a slice of length \<open>n\<close>.\<close>

lemma for_each_fill:
  assumes len: "length t0 = n"
    and body: "\<And>k t. k < n \<Longrightarrow> length t = n \<Longrightarrow> body k t = Inr (t[k := f k])"
  shows "for_each [0..<n] body t0 = Inr (map f [0..<n])"
proof -
  let ?I = "\<lambda>k t. length t = n \<and> take k t = map f [0..<k]"
  have "\<exists>t. for_each [0..<n] body t0 = Inr t \<and> ?I n t"
  proof (rule for_each_upt_total [where I = ?I])
    show "?I 0 t0" using len by simp
  next
    fix k u assume k: "k < n" and u: "?I k u"
    then have "body k u = Inr (u[k := f k])" using body by simp
    moreover have "take (Suc k) (u[k := f k]) = map f [0..<Suc k]"
      using k u by (simp add: take_Suc_conv_app_nth)
    ultimately show "\<exists>u'. body k u = Inr u' \<and> ?I (Suc k) u'" using u by simp
  qed
  then show ?thesis by auto
qed

lemma wrap_prev_nat: "i < n \<Longrightarrow> wrap_prev (int n) (int i) = int ((i + n - 1) mod n)"
proof (cases i)
  case 0
  assume "i < n"
  with 0 have "(i + n - 1) mod n = n - 1" "1 \<le> n" by simp_all
  with 0 show ?thesis by (simp add: wrap_prev_def of_nat_diff)
next
  case (Suc k)
  assume "i < n"
  with Suc have "(i + n - 1) mod n = k" by simp
  with Suc show ?thesis by (simp add: wrap_prev_def)
qed

lemma wrap_next_nat: "i < n \<Longrightarrow> wrap_next (int n) (int i) = int ((i + 1) mod n)"
  by (cases "Suc i = n") (auto simp add: wrap_next_def Let_def)

subsection \<open>The neighbour count of feed\<close>

lemma rect_nth: "rect W rows \<Longrightarrow> i < length rows \<Longrightarrow> length (rows ! i) = W"
  by (simp add: rect_def list_all_length)

lemma neighborIndices_less:
  "i < n \<Longrightarrow> fst (neighborIndices n i) < n \<and> snd (neighborIndices n i) < n"
  by (simp add: neighborIndices_def)

lemma feed_rowsum_rect:
  assumes r: "rect W rows" and i: "i < length rows" and t: "length tmp = W"
  shows "feed_rowsum rows i tmp = Inr (map (rowsum3 rows i) [0..<W])"
proof -
  let ?n = "length rows"
  have up: "fst (neighborIndices ?n i) < ?n" and dn: "snd (neighborIndices ?n i) < ?n"
    using neighborIndices_less [OF i] by simp_all
  have w: "wrap_prev (int ?n) (int i) = int (fst (neighborIndices ?n i))"
          "wrap_next (int ?n) (int i) = int (snd (neighborIndices ?n i))"
    using i by (simp_all add: wrap_prev_nat wrap_next_nat neighborIndices_def)
  have len: "length (rows ! i) = W" "length (rows ! fst (neighborIndices ?n i)) = W"
            "length (rows ! snd (neighborIndices ?n i)) = W"
    using r i up dn by (simp_all add: rect_nth)
  show ?thesis
    unfolding feed_rowsum_def Let_def w len
    by (rule for_each_fill [OF t]) (simp add: up dn len rowsum3_def)
qed

lemma feed_colsum_rect:
  assumes t: "length tmp = W" and r: "length row = W"
  shows "feed_colsum tmp row = Inr (map (colsum3 tmp row) [0..<W])"
proof -
  let ?body = "\<lambda>j crow.
          (let j1 = wrap_prev (int (length tmp)) (int j);
               j2 = wrap_next (int (length tmp)) (int j)
           in bindP (at tmp j1) (\<lambda>a. bindP (at tmp j2) (\<lambda>b.
              bindP (at row (int j)) (\<lambda>c.
              put crow (int j) (tmp ! j + a + b - c)))))"
  have body: "?body k u = Inr (u[k := colsum3 tmp row k])"
    if k: "k < W" and lu: "length u = W" for k and u :: Row
  proof -
    have lr: "fst (neighborIndices W k) < W" "snd (neighborIndices W k) < W"
      using neighborIndices_less [OF k] by simp_all
    have w: "wrap_prev (int W) (int k) = int (fst (neighborIndices W k))"
            "wrap_next (int W) (int k) = int (snd (neighborIndices W k))"
      using k by (simp_all add: wrap_prev_nat wrap_next_nat neighborIndices_def)
    show ?thesis
      unfolding Let_def t w using k lu lr t r by (simp add: colsum3_def)
  qed
  have "for_each [0..<W] ?body (replicate W 0) = Inr (map (colsum3 tmp row) [0..<W])"
    by (rule for_each_fill) (simp, rule body)
  then show ?thesis by (simp add: feed_colsum_def t r)
qed

lemma feed_count_rect:
  assumes r: "rect W rows" and ne: "rows \<noteq> []"
  shows "feed_count rows = Inr (count_table rows)"
proof -
  let ?H = "length rows"
  let ?row = "\<lambda>i. map (colsum3 (map (rowsum3 rows i) [0..<W]) (rows ! i)) [0..<W]"
  let ?I = "\<lambda>k (st :: Row \<times> Row list). length (fst st) = W \<and> snd st = map ?row [0..<k]"
  let ?body = "\<lambda>i (tmp, countBoard).
                 bindP (feed_rowsum rows i tmp) (\<lambda>tmp.
                 bindP (feed_colsum tmp (rows ! i)) (\<lambda>crow.
                 Inr (tmp, countBoard @ [crow])))"
  have r0: "at rows 0 = Inr (rows ! 0)" and l0: "length (rows ! 0) = W"
    using ne r by (simp_all add: at_def rect_nth)
  have "\<exists>st. for_each [0..<?H] ?body (replicate W 0, []) = Inr st \<and> ?I ?H st"
  proof (rule for_each_upt_total [where I = ?I])
    show "?I 0 (replicate W 0, [])" by simp
  next
    fix k u assume k: "k < ?H" and u: "?I k u"
    obtain tmp cb where [simp]: "u = (tmp, cb)" by (cases u)
    from u have t: "length tmp = W" and cb: "cb = map ?row [0..<k]" by simp_all
    have "?body k u = Inr (map (rowsum3 rows k) [0..<W], cb @ [?row k])"
      by (simp add: feed_rowsum_rect [OF r k t] feed_colsum_rect [where W = W] rect_nth [OF r k])
    then show "\<exists>u'. ?body k u = Inr u' \<and> ?I (Suc k) u'" using cb by simp
  qed
  then obtain st where st: "for_each [0..<?H] ?body (replicate W 0, []) = Inr st" "?I ?H st"
    by blast
  have "map ?row [0..<?H] = count_table rows"
    unfolding count_table_def by (rule map_cong) (simp_all add: rect_nth [OF r])
  with st show ?thesis
    by (cases st) (simp add: feed_count_def r0 l0)
qed

lemma steady_nth:
  "steady rows \<Longrightarrow> i < length rows \<Longrightarrow> j < length (rows ! i) \<Longrightarrow> steady_cell (rows ! i ! j)"
  by (simp add: steady_def list_all_length)

lemma steady_cell_value: "steady_cell c \<Longrightarrow> c = of_nat (value_of c) \<and> value_of c \<le> 1"
  by (auto simp add: steady_cell_def value_of_def CellEmpty_def CellAlive_def)

lemma sep_sum_word:
  fixes a b c d e f g h i :: nat
  assumes "a \<le> 1" "b \<le> 1" "c \<le> 1" "d \<le> 1" "f \<le> 1" "g \<le> 1" "h \<le> 1" "i \<le> 1"
  shows "unat ((of_nat e + of_nat b + of_nat h) + (of_nat d + of_nat a + of_nat g)
               + (of_nat f + of_nat c + of_nat i) - of_nat e :: 8 word)
         = a + b + c + d + f + g + h + i"
proof -
  have "(of_nat e + of_nat b + of_nat h) + (of_nat d + of_nat a + of_nat g)
               + (of_nat f + of_nat c + of_nat i) - of_nat e
        = (of_nat (a + b + c + d + f + g + h + i) :: 8 word)"
    by simp
  moreover have "unat (of_nat n :: 8 word) = n" if "n < 256" for n :: nat
    using that by (simp add: unat_of_nat)
  moreover have "a + b + c + d + f + g + h + i < 256" using assms by simp
  ultimately show ?thesis by (simp only:)
qed

lemma count_table_nth:
  assumes r: "rect W rows" and i: "i < length rows" and j: "j < W"
  shows "count_table rows ! i ! j =
           colsum3 (map (rowsum3 rows i) [0..<W]) (rows ! i) j"
  using i j by (simp add: count_table_def rect_nth [OF r i])

lemma count_table_naive:
  assumes r: "rect W rows" and s: "steady rows" and i: "i < length rows" and j: "j < W"
  shows "unat (count_table rows ! i ! j) = naive_count rows i j"
proof -
  let ?H = "length rows"
  define u d l k where "u = fst (neighborIndices ?H i)" and "d = snd (neighborIndices ?H i)"
    and "l = fst (neighborIndices W j)" and "k = snd (neighborIndices W j)"
  have ud: "u < ?H" "d < ?H" and lk: "l < W" "k < W"
    using neighborIndices_less [OF i] neighborIndices_less [OF j] by (simp_all add: u_def d_def l_def k_def)
  have len: "length (rows ! i) = W" "length (rows ! u) = W" "length (rows ! d) = W"
    using r i ud by (simp_all add: rect_nth)
  have vv: "rows ! p ! q = of_nat (value_of (rows ! p ! q)) \<and> value_of (rows ! p ! q) \<le> 1"
    if "p < ?H" "q < W" for p q
    using steady_cell_value [OF steady_nth [OF s that(1)]] that r by (simp add: rect_nth)
  have v: "rows ! p ! q = of_nat (value_of (rows ! p ! q))" if "p < ?H" "q < W" for p q
    using vv [OF that] by simp
  have vle: "value_of (rows ! p ! q) \<le> 1" if "p < ?H" "q < W" for p q
    using vv [OF that] by simp
  have lhs: "count_table rows ! i ! j =
      (rows ! i ! j + rows ! u ! j + rows ! d ! j) + (rows ! i ! l + rows ! u ! l + rows ! d ! l)
        + (rows ! i ! k + rows ! u ! k + rows ! d ! k) - rows ! i ! j"
    using j lk by (simp add: count_table_nth [OF r i j] colsum3_def rowsum3_def u_def d_def l_def k_def)
  have rhs: "naive_count rows i j =
      value_of (rows ! u ! l) + value_of (rows ! u ! j) + value_of (rows ! u ! k)
      + value_of (rows ! i ! l) + value_of (rows ! i ! k)
      + value_of (rows ! d ! l) + value_of (rows ! d ! j) + value_of (rows ! d ! k)"
    by (simp add: naive_count_def len u_def d_def l_def k_def split_def Let_def)
  have "unat ((of_nat (value_of (rows ! i ! j)) + of_nat (value_of (rows ! u ! j))
                 + of_nat (value_of (rows ! d ! j)))
              + (of_nat (value_of (rows ! i ! l)) + of_nat (value_of (rows ! u ! l))
                 + of_nat (value_of (rows ! d ! l)))
              + (of_nat (value_of (rows ! i ! k)) + of_nat (value_of (rows ! u ! k))
                 + of_nat (value_of (rows ! d ! k)))
              - of_nat (value_of (rows ! i ! j)) :: 8 word)
        = value_of (rows ! u ! l) + value_of (rows ! u ! j) + value_of (rows ! u ! k)
          + value_of (rows ! i ! l) + value_of (rows ! i ! k)
          + value_of (rows ! d ! l) + value_of (rows ! d ! j) + value_of (rows ! d ! k)"
    by (rule sep_sum_word; rule vle; fact)
  moreover have "count_table rows ! i ! j =
       (of_nat (value_of (rows ! i ! j)) + of_nat (value_of (rows ! u ! j))
                 + of_nat (value_of (rows ! d ! j)))
              + (of_nat (value_of (rows ! i ! l)) + of_nat (value_of (rows ! u ! l))
                 + of_nat (value_of (rows ! d ! l)))
              + (of_nat (value_of (rows ! i ! k)) + of_nat (value_of (rows ! u ! k))
                 + of_nat (value_of (rows ! d ! k)))
              - of_nat (value_of (rows ! i ! j))"
    unfolding lhs
    using v [OF i j] v [OF ud(1) j] v [OF ud(2) j] v [OF i lk(1)] v [OF ud(1) lk(1)]
      v [OF ud(2) lk(1)] v [OF i lk(2)] v [OF ud(1) lk(2)] v [OF ud(2) lk(2)]
    by metis
  ultimately show ?thesis by (simp add: rhs)
qed

subsection \<open>The fate sweep of feed\<close>

lemma list_update_same: "xs ! j = v \<Longrightarrow> xs[j := v] = xs"
  by (metis list_update_id)

text \<open>
  A loop that rewrites a slice in place, entry \<open>k\<close> at step \<open>k\<close>, possibly carrying more
  state (\<open>proj\<close> selects the slice) and possibly failing.
\<close>

lemma for_each_inplace:
  assumes start: "proj s0 = xs" and n: "length xs = n"
    and step: "\<And>k s. k < n \<Longrightarrow> length (proj s) = n \<Longrightarrow> proj s ! k = xs ! k \<Longrightarrow>
                 (case body k s of Inl e \<Rightarrow> Q e
                  | Inr s' \<Rightarrow> P k \<and> proj s' = (proj s)[k := f k])"
  shows "case for_each [0..<n] body s0 of
           Inl e \<Rightarrow> Q e
         | Inr s \<Rightarrow> (\<forall>k<n. P k) \<and> proj s = map f [0..<n]"
proof -
  let ?I = "\<lambda>k s. length (proj s) = n \<and> take k (proj s) = map f [0..<k]
                  \<and> drop k (proj s) = drop k xs \<and> (\<forall>j<k. P j)"
  have "case for_each [0..<n] body s0 of Inl e \<Rightarrow> Q e | Inr s \<Rightarrow> ?I n s"
  proof (rule for_each_upt_rule [where I = ?I])
    show "?I 0 s0" using start n by simp
  next
    fix k s assume k: "k < n" and s: "?I k s"
    then have sk: "proj s ! k = xs ! k"
      using n by (metis hd_drop_conv_nth)
    show "case body k s of Inl e \<Rightarrow> Q e | Inr s' \<Rightarrow> ?I (Suc k) s'"
    proof (cases "body k s")
      case (Inl e)
      with step [OF k _ sk] s show ?thesis by simp
    next
      case (Inr s')
      with step [OF k _ sk] s have pk: "P k" and s': "proj s' = (proj s)[k := f k]" by simp_all
      have "take (Suc k) ((proj s)[k := f k]) = map f [0..<Suc k]"
        using k s by (simp add: take_Suc_conv_app_nth)
      moreover have "drop (Suc k) ((proj s)[k := f k]) = drop (Suc k) xs"
        using s by (metis drop_update_cancel lessI drop_Suc tl_drop)
      moreover have "\<forall>j<Suc k. P j"
        using s pk by (simp add: less_Suc_eq)
      ultimately show ?thesis using Inr s s' by simp
    qed
  qed
  then show ?thesis by (auto split: sum.splits)
qed

lemma feed_fate_cell_eq:
  assumes "i < length cb" "j < length (cb ! i)" "j < length row"
  shows "feed_fate_cell cb i j row =
           (if steady_cell (row ! j) then Inr (row[j := fate (row ! j) (cb ! i ! j)])
            else Inl (WrongCellFeed (row ! j)))"
  using assms
  by (simp add: feed_fate_cell_def steady_cell_def fate_def Let_def list_update_same)

lemma feed_fate_row_cases:
  assumes i: "i < length cb" and len: "length (cb ! i) = length row"
  shows "case feed_fate_row cb i row of
           Inl e \<Rightarrow> \<exists>c\<in>set row. e = WrongCellFeed c \<and> \<not> steady_cell c
         | Inr u \<Rightarrow> list_all steady_cell row \<and>
                    u = map (\<lambda>j. fate (row ! j) (cb ! i ! j)) [0..<length row]"
proof -
  have "case for_each [0..<length row] (feed_fate_cell cb i) row of
           Inl e \<Rightarrow> \<exists>c\<in>set row. e = WrongCellFeed c \<and> \<not> steady_cell c
         | Inr u \<Rightarrow> (\<forall>k<length row. steady_cell (row ! k)) \<and>
                    (\<lambda>u. u) u = map (\<lambda>j. fate (row ! j) (cb ! i ! j)) [0..<length row]"
  proof (rule for_each_inplace [where xs = row])
    fix k and s :: Row
    assume "k < length row" "length s = length row" "s ! k = row ! k"
    then show "case feed_fate_cell cb i k s of
                 Inl e \<Rightarrow> \<exists>c\<in>set row. e = WrongCellFeed c \<and> \<not> steady_cell c
               | Inr s' \<Rightarrow> steady_cell (row ! k) \<and> s' = s[k := fate (row ! k) (cb ! i ! k)]"
      using feed_fate_cell_eq [of i cb k s] i len by simp
  qed simp_all
  then show ?thesis
    by (simp add: feed_fate_row_def list_all_length split: sum.splits)
qed

lemma feed_fate_cases:
  assumes len: "length cb = length rows"
    and lens: "\<And>i. i < length rows \<Longrightarrow> length (cb ! i) = length (rows ! i)"
  shows "case feed_fate cb rows of
           Inl e \<Rightarrow> \<exists>row\<in>set rows. \<exists>c\<in>set row. e = WrongCellFeed c \<and> \<not> steady_cell c
         | Inr rows' \<Rightarrow> steady rows \<and> rows' = fate_table cb rows"
proof -
  let ?body = "\<lambda>i rows. bindP (feed_fate_row cb i (rows ! i)) (\<lambda>row. Inr (rows[i := row]))"
  let ?f = "\<lambda>i. map (\<lambda>j. fate (rows ! i ! j) (cb ! i ! j)) [0..<length (rows ! i)]"
  have "case for_each [0..<length rows] ?body rows of
           Inl e \<Rightarrow> \<exists>row\<in>set rows. \<exists>c\<in>set row. e = WrongCellFeed c \<and> \<not> steady_cell c
         | Inr u \<Rightarrow> (\<forall>k<length rows. list_all steady_cell (rows ! k)) \<and>
                    (\<lambda>u. u) u = map ?f [0..<length rows]"
  proof (rule for_each_inplace [where xs = rows])
    fix k and s :: "Row list"
    assume k: "k < length rows" and "length s = length rows" and sk: "s ! k = rows ! k"
    have "case feed_fate_row cb k (rows ! k) of
           Inl e \<Rightarrow> \<exists>c\<in>set (rows ! k). e = WrongCellFeed c \<and> \<not> steady_cell c
         | Inr u \<Rightarrow> list_all steady_cell (rows ! k) \<and> u = ?f k"
      by (rule feed_fate_row_cases) (simp_all add: k len lens)
    then show "case ?body k s of
                 Inl e \<Rightarrow> \<exists>row\<in>set rows. \<exists>c\<in>set row. e = WrongCellFeed c \<and> \<not> steady_cell c
               | Inr s' \<Rightarrow> list_all steady_cell (rows ! k) \<and> s' = s[k := ?f k]"
      using k by (cases "feed_fate_row cb k (rows ! k)") (auto simp add: sk)
  qed simp_all
  then show ?thesis
    by (simp add: feed_fate_def fate_table_def steady_def list_all_length [of _ rows]
             split: sum.splits)
qed

lemma count_table_shape:
  "length (count_table rows) = length rows"
  "i < length rows \<Longrightarrow> length (count_table rows ! i) = length (rows ! i)"
  by (simp_all add: count_table_def)

lemma feed_steady:
  assumes r: "rect W (Rows (Board g))" and ne: "Rows (Board g) \<noteq> []"
    and s: "steady (Rows (Board g))"
  shows "feed g = Inr (g\<lparr>Board := \<lparr>Rows = fate_table (count_table (Rows (Board g))) (Rows (Board g))\<rparr>\<rparr>)"
proof -
  let ?rows = "Rows (Board g)"
  have "case feed_fate (count_table ?rows) ?rows of
           Inl e \<Rightarrow> \<exists>row\<in>set ?rows. \<exists>c\<in>set row. e = WrongCellFeed c \<and> \<not> steady_cell c
         | Inr rows' \<Rightarrow> steady ?rows \<and> rows' = fate_table (count_table ?rows) ?rows"
    by (rule feed_fate_cases) (simp_all add: count_table_shape)
  moreover have "\<not> (\<exists>row\<in>set ?rows. \<exists>c\<in>set row. \<not> steady_cell c)"
    using s by (auto simp add: steady_def list_all_iff)
  ultimately have "feed_fate (count_table ?rows) ?rows = Inr (fate_table (count_table ?rows) ?rows)"
    by (cases "feed_fate (count_table ?rows) ?rows") auto
  then show ?thesis by (simp add: feed_def feed_count_rect [OF r ne])
qed

lemma feed_unsteady_rect:
  assumes r: "rect W (Rows (Board g))" and ne: "Rows (Board g) \<noteq> []"
    and s: "\<not> steady (Rows (Board g))"
  shows "\<exists>c. feed g = Inl (WrongCellFeed c) \<and> \<not> steady_cell c"
proof -
  let ?rows = "Rows (Board g)"
  have "case feed_fate (count_table ?rows) ?rows of
           Inl e \<Rightarrow> \<exists>row\<in>set ?rows. \<exists>c\<in>set row. e = WrongCellFeed c \<and> \<not> steady_cell c
         | Inr rows' \<Rightarrow> steady ?rows \<and> rows' = fate_table (count_table ?rows) ?rows"
    by (rule feed_fate_cases) (simp_all add: count_table_shape)
  with s obtain c where "feed_fate (count_table ?rows) ?rows = Inl (WrongCellFeed c)"
    "\<not> steady_cell c"
    by (cases "feed_fate (count_table ?rows) ?rows") auto
  then show ?thesis by (auto simp add: feed_def feed_count_rect [OF r ne])
qed

text \<open>Whatever the shape of the board, a count board that is returned has its shape.\<close>

lemma put_length: "put xs i v = Inr ys \<Longrightarrow> length ys = length xs"
  by (auto simp add: put_def split: if_splits)

lemma feed_colsum_length:
  assumes "feed_colsum tmp row = Inr crow"
  shows "length crow = length row"
proof -
  let ?body = "\<lambda>j crow.
          (let j1 = wrap_prev (int (length tmp)) (int j);
               j2 = wrap_next (int (length tmp)) (int j)
           in bindP (at tmp j1) (\<lambda>a. bindP (at tmp j2) (\<lambda>b.
              bindP (at row (int j)) (\<lambda>c.
              put crow (int j) (tmp ! j + a + b - c)))))"
  have "case for_each [0..<length tmp] ?body (replicate (length row) 0) of
          Inl e \<Rightarrow> True | Inr u \<Rightarrow> length u = length row"
  proof (rule for_each_upt_rule [where I = "\<lambda>k u. length u = length row"])
    fix k and u :: Row
    assume "length u = length row"
    then show "case ?body k u of Inl e \<Rightarrow> True | Inr u' \<Rightarrow> length u' = length row"
      by (auto simp add: Let_def bindP_def dest: put_length split: sum.splits)
  qed simp
  with assms show ?thesis by (simp add: feed_colsum_def)
qed

lemma feed_count_shape:
  assumes "feed_count rows = Inr cb"
  shows "length cb = length rows \<and> (\<forall>i<length rows. length (cb ! i) = length (rows ! i))"
proof -
  let ?body = "\<lambda>i (tmp, countBoard).
                 bindP (feed_rowsum rows i tmp) (\<lambda>tmp.
                 bindP (feed_colsum tmp (rows ! i)) (\<lambda>crow.
                 Inr (tmp, countBoard @ [crow])))"
  let ?I = "\<lambda>k (st :: Row \<times> Row list).
              length (snd st) = k \<and> (\<forall>i<k. length (snd st ! i) = length (rows ! i))"
  have "case for_each [0..<length rows] ?body (replicate (length (rows ! 0)) 0, []) of
          Inl e \<Rightarrow> True | Inr st \<Rightarrow> ?I (length rows) st"
  proof (rule for_each_upt_rule [where I = ?I])
    fix k and u :: "Row \<times> Row list"
    assume u: "?I k u"
    show "case ?body k u of Inl e \<Rightarrow> True | Inr u' \<Rightarrow> ?I (Suc k) u'"
    proof (cases "?body k u")
      case (Inr u')
      then obtain tmp' crow where u': "u' = (tmp', snd u @ [crow])"
        and c: "feed_colsum tmp' (rows ! k) = Inr crow"
        by (cases u) (auto simp add: bindP_def split: sum.splits)
      from u show ?thesis
        by (simp add: Inr u' feed_colsum_length [OF c] nth_append less_Suc_eq)
    qed simp
  qed simp
  with assms show ?thesis
    by (auto simp add: feed_count_def bindP_def at_def split: sum.splits if_splits prod.splits)
qed

lemma feed_unsteady:
  assumes "\<not> steady (Rows (Board g))"
  shows "\<exists>e. feed g = Inl e"
proof (cases "feed_count (Rows (Board g))")
  case (Inl e)
  then show ?thesis by (simp add: feed_def)
next
  case (Inr cb)
  let ?rows = "Rows (Board g)"
  have "case feed_fate cb ?rows of
           Inl e \<Rightarrow> \<exists>row\<in>set ?rows. \<exists>c\<in>set row. e = WrongCellFeed c \<and> \<not> steady_cell c
         | Inr rows' \<Rightarrow> steady ?rows \<and> rows' = fate_table cb ?rows"
    by (rule feed_fate_cases) (simp_all add: feed_count_shape [OF Inr])
  with assms obtain e where "feed_fate cb ?rows = Inl e"
    by (cases "feed_fate cb ?rows") auto
  then show ?thesis by (simp add: feed_def Inr)
qed

subsection \<open>lifeOn\<close>

lemma map_upt_nth: "map (\<lambda>j. f (xs ! j)) [0..<length xs] = map f xs"
  by (rule nth_equalityI) simp_all

lemma lifeOn_cell_eq:
  assumes "j < length row"
  shows "lifeOn_cell i j (row, e, f) =
           (if valid_cell (row ! j)
            then Inr (row[j := resolve (row ! j)],
                      if resolve (row ! j) = CellEmpty then e + 1 else e,
                      if resolve (row ! j) = CellEmpty then f else f + 1)
            else Inl (WrongCellLifeOn (row ! j) j i))"
  using assms
  by (auto simp add: lifeOn_cell_def valid_cell_def resolve_def Let_def
        CellEmpty_def CellAlive_def CellBorn_def CellDying_def)

lemma lifeOn_row_cases:
  "case lifeOn_row i (row, e, f) of
     Inl x \<Rightarrow> \<exists>c\<in>set row. \<not> valid_cell c
   | Inr st \<Rightarrow> list_all valid_cell row \<and> fst st = map resolve row"
proof -
  have "case for_each [0..<length row] (lifeOn_cell i) (row, e, f) of
          Inl x \<Rightarrow> \<exists>c\<in>set row. \<not> valid_cell c
        | Inr st \<Rightarrow> (\<forall>k<length row. valid_cell (row ! k)) \<and>
                     fst st = map (\<lambda>j. resolve (row ! j)) [0..<length row]"
  proof (rule for_each_inplace [where xs = row])
    fix k and s :: "Row \<times> nat \<times> nat"
    assume k: "k < length row" "length (fst s) = length row" "fst s ! k = row ! k"
    obtain u a b where s: "s = (u, a, b)" by (cases s)
    show "case lifeOn_cell i k s of
            Inl x \<Rightarrow> \<exists>c\<in>set row. \<not> valid_cell c
          | Inr s' \<Rightarrow> valid_cell (row ! k) \<and> fst s' = (fst s)[k := resolve (row ! k)]"
      using k lifeOn_cell_eq [of k u i a b] by (auto simp add: s)
  qed simp_all
  then show ?thesis
    by (auto simp add: lifeOn_row_def list_all_length map_upt_nth split: sum.splits)
qed

lemma lifeOn_cases:
  "case lifeOn g of
     Inl x \<Rightarrow> \<not> valid (Rows (Board g))
   | Inr r \<Rightarrow> valid (Rows (Board g)) \<and>
              fst r = g\<lparr>Board := \<lparr>Rows = map (map resolve) (Rows (Board g))\<rparr>\<rparr>"
proof -
  let ?rows = "Rows (Board g)"
  let ?body = "\<lambda>i (rows, empty, filled).
                 bindP (lifeOn_row i (rows ! i, empty, filled)) (\<lambda>(row, empty, filled).
                 Inr (rows[i := row], empty, filled))"
  have "case for_each [0..<length ?rows] ?body (?rows, 0, 0) of
          Inl x \<Rightarrow> \<not> valid ?rows
        | Inr st \<Rightarrow> (\<forall>k<length ?rows. list_all valid_cell (?rows ! k)) \<and>
                     fst st = map (\<lambda>i. map resolve (?rows ! i)) [0..<length ?rows]"
  proof (rule for_each_inplace [where xs = ?rows])
    fix k and s :: "Row list \<times> nat \<times> nat"
    assume k: "k < length ?rows" "length (fst s) = length ?rows" "fst s ! k = ?rows ! k"
    obtain u a b where s: "s = (u, a, b)" by (cases s)
    have "case lifeOn_row k (?rows ! k, a, b) of
            Inl x \<Rightarrow> \<exists>c\<in>set (?rows ! k). \<not> valid_cell c
          | Inr st \<Rightarrow> list_all valid_cell (?rows ! k) \<and> fst st = map resolve (?rows ! k)"
      by (rule lifeOn_row_cases)
    moreover have "?rows ! k \<in> set ?rows" using k by simp
    ultimately show "case ?body k s of
            Inl x \<Rightarrow> \<not> valid ?rows
          | Inr s' \<Rightarrow> list_all valid_cell (?rows ! k) \<and>
                      fst s' = (fst s)[k := map resolve (?rows ! k)]"
      using k by (cases "lifeOn_row k (?rows ! k, a, b)")
        (auto simp add: s valid_def list_all_iff)
  qed simp_all
  then show ?thesis
    by (cases "for_each [0..<length ?rows] ?body (?rows, 0, 0)")
      (auto simp add: lifeOn_def valid_def list_all_length [of _ "Rows (Board g)"] map_upt_nth)
qed

subsection \<open>Reading the count table and the fate table\<close>

lemma naive_count_wrap:
  assumes H: "0 < length rows" and W: "0 < W" and len: "length (rows ! (length rows - 1)) = W"
    "length (rows ! 0) = W"
  shows "value_of (rows ! 0 ! 0) \<le> naive_count rows (length rows - 1) 0"
    and "value_of (rows ! 0 ! 0) \<le> naive_count rows 0 (W - 1)"
    and "value_of (rows ! 0 ! 0) \<le> naive_count rows (length rows - 1) (W - 1)"
proof -
  have "(length rows - 1 + 1) mod length rows = 0" "(W - 1 + 1) mod W = 0"
    using H W by simp_all
  then show "value_of (rows ! 0 ! 0) \<le> naive_count rows (length rows - 1) 0"
    and "value_of (rows ! 0 ! 0) \<le> naive_count rows 0 (W - 1)"
    and "value_of (rows ! 0 ! 0) \<le> naive_count rows (length rows - 1) (W - 1)"
    using len by (simp_all add: naive_count_def neighborIndices_def)
qed

lemma fate_table_nth:
  "i < length rows \<Longrightarrow> j < length (rows ! i) \<Longrightarrow>
     fate_table cb rows ! i ! j = fate (rows ! i ! j) (cb ! i ! j)"
  by (simp add: fate_table_def)

lemma fate_table_shape:
  "length (fate_table cb rows) = length rows"
  "i < length rows \<Longrightarrow> length (fate_table cb rows ! i) = length (rows ! i)"
  by (simp_all add: fate_table_def)

lemma fate_naive:
  fixes nbrs :: Cell
  shows "fate CellEmpty nbrs = (if unat nbrs = 3 then CellBorn else CellEmpty)"
    and "fate CellAlive nbrs = (if unat nbrs = 2 \<or> unat nbrs = 3 then CellAlive else CellDying)"
proof -
  have eq: "nbrs = 3 \<longleftrightarrow> unat nbrs = 3"
    by (simp add: word_unat_eq_iff)
  have lt: "nbrs < 2 \<longleftrightarrow> unat nbrs < 2" and gt: "nbrs > 3 \<longleftrightarrow> unat nbrs > 3"
    by (simp_all add: word_less_nat_alt)
  show "fate CellEmpty nbrs = (if unat nbrs = 3 then CellBorn else CellEmpty)"
    by (simp add: fate_def eq)
  have "unat nbrs < 2 \<or> unat nbrs > 3 \<longleftrightarrow> \<not> (unat nbrs = 2 \<or> unat nbrs = 3)" by arith
  then show "fate CellAlive nbrs = (if unat nbrs = 2 \<or> unat nbrs = 3 then CellAlive else CellDying)"
    by (simp add: fate_def lt gt CellAlive_def CellEmpty_def)
qed

lemma fate_valid: "steady_cell c \<Longrightarrow> valid_cell (fate c n)"
  by (auto simp add: steady_cell_def valid_cell_def fate_def)

lemma fate_table_inv:
  assumes "rect W rows" and "steady rows"
  shows "rect W (fate_table cb rows) \<and> valid (fate_table cb rows)"
  using assms
  by (auto simp add: rect_def valid_def steady_def fate_table_def list_all_length fate_valid)

subsection \<open>lifeOn on valid and on steady boards\<close>

lemma resolve_steady: "steady_cell c \<Longrightarrow> resolve c = c"
  by (auto simp add: steady_cell_def resolve_def CellEmpty_def CellAlive_def CellBorn_def CellDying_def)

lemma steady_valid: "steady rows \<Longrightarrow> valid rows"
  by (auto simp add: steady_def valid_def steady_cell_def valid_cell_def list_all_iff)

lemma resolve_steady_cell: "valid_cell c \<Longrightarrow> steady_cell (resolve c)"
  by (auto simp add: steady_cell_def valid_cell_def resolve_def)

lemma resolve_inv:
  assumes "rect W rows" and "valid rows"
  shows "rect W (map (map resolve) rows) \<and> steady (map (map resolve) rows)"
  using assms
  by (auto simp add: rect_def valid_def steady_def list_all_length resolve_steady_cell)

lemma lifeOn_valid:
  assumes v: "valid (Rows (Board g))"
  shows "\<exists>e f. lifeOn g = Inr (g\<lparr>Board := \<lparr>Rows = map (map resolve) (Rows (Board g))\<rparr>\<rparr>, e, f)"
proof -
  have "case lifeOn g of
          Inl x \<Rightarrow> \<not> valid (Rows (Board g))
        | Inr r \<Rightarrow> valid (Rows (Board g)) \<and>
            fst r = g\<lparr>Board := \<lparr>Rows = map (map resolve) (Rows (Board g))\<rparr>\<rparr>"
    by (rule lifeOn_cases)
  with v show ?thesis by (cases "lifeOn g") auto
qed

subsection \<open>NewBoard, RandomFill, NewGame\<close>

lemma map_const_upt: "map (\<lambda>_. x) [0..<n] = replicate n x"
  by (simp add: map_replicate_const)

lemma NewBoard_row:
  assumes "0 \<le> nColumns"
  shows "bindP (make_slice nColumns (0::Cell)) (\<lambda>r.
           for_each [0..<nat nColumns] (\<lambda>j r. put r (int j) CellEmpty) r)
         = Inr (replicate (nat nColumns) CellEmpty)"
proof -
  have "for_each [0..<nat nColumns] (\<lambda>j r. put r (int j) CellEmpty)
          (replicate (nat nColumns) (0::Cell)) = Inr (map (\<lambda>_. CellEmpty) [0..<nat nColumns])"
    by (rule for_each_fill) simp_all
  with assms show ?thesis by (simp add: make_slice_def map_const_upt)
qed

lemma NewBoard_nonneg:
  assumes c: "0 \<le> nColumns" and r: "0 \<le> nRows"
  shows "NewBoard nColumns nRows =
           Inr \<lparr>Rows = replicate (nat nRows) (replicate (nat nColumns) CellEmpty)\<rparr>"
proof -
  let ?body = "\<lambda>i rows.
                 bindP (make_slice nColumns (0::Cell)) (\<lambda>r.
                 bindP (for_each [0..<nat nColumns] (\<lambda>j r. put r (int j) CellEmpty) r) (\<lambda>r.
                 put rows (int i) r))"
  have row: "for_each [0..<nat nColumns] (\<lambda>j r. put r (int j) CellEmpty)
          (replicate (nat nColumns) (0::Cell)) = Inr (replicate (nat nColumns) CellEmpty)"
    using NewBoard_row [OF c] c by (simp add: make_slice_def)
  have "for_each [0..<nat nRows] ?body (replicate (nat nRows) [])
          = Inr (map (\<lambda>_. replicate (nat nColumns) CellEmpty) [0..<nat nRows])"
    by (rule for_each_fill) (insert c, simp_all add: make_slice_def row)
  then show ?thesis
    using r by (simp add: NewBoard_def make_slice_def map_const_upt)
qed

lemma NewBoard_negative_columns:
  assumes c: "nColumns < 0" and r: "0 < nRows"
  shows "NewBoard nColumns nRows = Inl MakeSliceLen"
proof -
  have "[0..<nat nRows] = 0 # [1..<nat nRows]"
    using r by (simp add: upt_conv_Cons)
  then show ?thesis
    using c r by (simp add: NewBoard_def make_slice_def)
qed

lemma valid_cell_Intn: "valid_cell (of_nat (Intn rnd k (length Colors)))"
proof -
  have "rnd k mod 4 < 4" by simp
  then have "rnd k mod 4 = 0 \<or> rnd k mod 4 = 1 \<or> rnd k mod 4 = 2 \<or> rnd k mod 4 = 3"
    by arith
  then show ?thesis
    by (auto simp add: valid_cell_def Intn_def Colors_def
          CellEmpty_def CellAlive_def CellBorn_def CellDying_def)
qed

lemma RandomFill_row_props:
  "length (fst (RandomFill_row rnd k row)) = length row
   \<and> list_all valid_cell (fst (RandomFill_row rnd k row))"
  by (induction row arbitrary: k) (simp_all add: split_def Let_def valid_cell_Intn)

lemma RandomFill_rows_props:
  "length (RandomFill_rows rnd k rows) = length rows
   \<and> (rect W rows \<longrightarrow> rect W (RandomFill_rows rnd k rows))
   \<and> valid (RandomFill_rows rnd k rows)"
  by (induction rows arbitrary: k)
    (simp_all add: split_def Let_def rect_def valid_def RandomFill_row_props)

lemma NewGame_inv:
  assumes c: "0 \<le> nColumns" and r: "1 \<le> nRows"
  shows "\<exists>g0. NewGame rnd nColumns nRows = Inr g0 \<and> tick_inv (nat nColumns) g0
              \<and> \<not> FeedPhase g0 \<and> \<not> Paused g0"
proof -
  let ?rows = "replicate (nat nRows) (replicate (nat nColumns) CellEmpty)"
  have nb: "NewBoard nColumns nRows = Inr \<lparr>Rows = ?rows\<rparr>"
    using c r by (simp add: NewBoard_nonneg)
  have "rect (nat nColumns) ?rows" by (simp add: rect_def list_all_length)
  moreover have "?rows \<noteq> []" using r by simp
  ultimately have "RandomFill_rows rnd 0 ?rows \<noteq> [] \<and> rect (nat nColumns) (RandomFill_rows rnd 0 ?rows)
      \<and> valid (RandomFill_rows rnd 0 ?rows)"
    using RandomFill_rows_props [of rnd 0 ?rows "nat nColumns"] by (metis length_0_conv)
  then show ?thesis
    by (simp add: NewGame_def nb RandomFill_def tick_inv_def)
qed

subsection \<open>Update and runs of ticks\<close>

lemma feed_frame:
  assumes "feed g = Inr g'"
  shows "FeedPhase g' = FeedPhase g \<and> Paused g' = Paused g \<and> Speed g' = Speed g"
  using assms by (auto simp add: feed_def bindP_def split: sum.splits)

lemma lifeOn_frame:
  assumes "lifeOn g = Inr (g', e, f)"
  shows "FeedPhase g' = FeedPhase g \<and> Paused g' = Paused g \<and> Speed g' = Speed g"
  using assms by (auto simp add: lifeOn_def bindP_def split: sum.splits prod.splits)

lemma wrap_int_id: "- (2 ^ 63) \<le> x \<Longrightarrow> x < 2 ^ 63 \<Longrightarrow> wrap_int x = x"
  by (simp add: wrap_int_def)

lemma wrap_int_bounds:
  "wrap_int (- (2 ^ 63) - 1) = 2 ^ 63 - 1" "wrap_int (2 ^ 63 - 1 + 1) = - (2 ^ 63)"
  by (simp_all add: wrap_int_def)

text \<open>
  At the two ends of the range the clamp is skipped: a speed-down request at the least
  value gives the greatest value, a speed-up request at the greatest gives the least.
\<close>

lemma processInput_wraps:
  "Speed (processInput left_key (g\<lparr>Speed := - (2 ^ 63)\<rparr>)) = 2 ^ 63 - 1"
  "Speed (processInput \<lparr>KeySpace = False, KeyLeft = False, KeyRight = True\<rparr>
            (g\<lparr>Speed := 2 ^ 63 - 1\<rparr>)) = - (2 ^ 63)"
  by (simp_all add: processInput_def left_key_def wrap_int_def MaxTPS_def)

lemma processInput_speed:
  assumes lo: "1 \<le> Speed g" and hi: "Speed g \<le> MaxTPS"
  shows "\<not> KeySpace ks \<Longrightarrow> KeyLeft ks \<Longrightarrow>
           Speed (processInput ks g) = (if Speed g = 1 then 1 else Speed g - 1)"
    and "\<not> KeySpace ks \<Longrightarrow> \<not> KeyLeft ks \<Longrightarrow> KeyRight ks \<Longrightarrow>
           Speed (processInput ks g) = (if Speed g = 60 then 60 else Speed g + 1)"
    and "1 \<le> Speed (processInput ks g)" and "Speed (processInput ks g) \<le> 60"
proof -
  have w: "wrap_int (Speed g - 1) = Speed g - 1" "wrap_int (Speed g + 1) = Speed g + 1"
    using lo hi by (simp_all add: wrap_int_id MaxTPS_def)
  show "\<not> KeySpace ks \<Longrightarrow> KeyLeft ks \<Longrightarrow>
           Speed (processInput ks g) = (if Speed g = 1 then 1 else Speed g - 1)"
    using lo hi by (auto simp add: processInput_def w MaxTPS_def)
  show "\<not> KeySpace ks \<Longrightarrow> \<not> KeyLeft ks \<Longrightarrow> KeyRight ks \<Longrightarrow>
           Speed (processInput ks g) = (if Speed g = 60 then 60 else Speed g + 1)"
    using lo hi by (auto simp add: processInput_def w MaxTPS_def)
  show "1 \<le> Speed (processInput ks g)" "Speed (processInput ks g) \<le> 60"
    using lo hi by (auto simp add: processInput_def w MaxTPS_def)
qed

lemma processInput_frame:
  "Board (processInput ks g) = Board g" "FeedPhase (processInput ks g) = FeedPhase g"
  by (simp_all add: processInput_def Let_def)

lemma processInput_no_space: "\<not> KeySpace ks \<Longrightarrow> Paused (processInput ks g) = Paused g"
  by (simp add: processInput_def Let_def)

lemma Update_unpaused:
  assumes "\<not> Paused (processInput ks g)" and "Update ks g = Inr (ph, g')"
  shows "ph = Some (if FeedPhase g then Mark else Resolve)
         \<and> FeedPhase g' = (\<not> FeedPhase g) \<and> \<not> Paused g'"
proof (cases "FeedPhase g")
  case True
  with assms obtain g1 where "feed ((processInput ks g)\<lparr>FeedPhase := False\<rparr>) = Inr g1"
    "ph = Some Mark" "g' = g1"
    by (auto simp add: Update_def Let_def processInput_frame bindP_def split: sum.splits)
  with feed_frame [OF this(1)] True assms(1) show ?thesis by simp
next
  case False
  with assms obtain g1 e f where "lifeOn ((processInput ks g)\<lparr>FeedPhase := True\<rparr>) = Inr (g1, e, f)"
    "ph = Some Resolve" "g' = g1"
    by (auto simp add: Update_def Let_def processInput_frame bindP_def split: sum.splits)
  with lifeOn_frame [OF this(1)] False assms(1) show ?thesis by simp
qed

lemma Update_inv:
  assumes inv: "tick_inv W g"
  shows "\<exists>ph g'. Update ks g = Inr (ph, g') \<and> tick_inv W g'
           \<and> Paused g' = Paused (processInput ks g)
           \<and> ph = (if Paused (processInput ks g) then None
                    else Some (if FeedPhase g then Mark else Resolve))
           \<and> FeedPhase g' = (if Paused (processInput ks g) then FeedPhase g else \<not> FeedPhase g)"
proof -
  let ?g = "processInput ks g"
  let ?rows = "Rows (Board g)"
  have fr: "Board ?g = Board g" "FeedPhase ?g = FeedPhase g" by (rule processInput_frame)+
  from inv have ne: "?rows \<noteq> []" and r: "rect W ?rows" and v: "valid ?rows"
    and st: "FeedPhase g \<Longrightarrow> steady ?rows"
    by (simp_all add: tick_inv_def)
  show ?thesis
  proof (cases "Paused ?g")
    case True
    then show ?thesis using inv by (simp add: Update_def Let_def tick_inv_def fr)
  next
    case False
    show ?thesis
    proof (cases "FeedPhase g")
      case True
      let ?g1 = "?g\<lparr>FeedPhase := False\<rparr>"
      have "feed ?g1 = Inr (?g1\<lparr>Board := \<lparr>Rows = fate_table (count_table ?rows) ?rows\<rparr>\<rparr>)"
        using feed_steady [of W ?g1] ne r st [OF True] by (simp add: fr)
      with False True fate_table_inv [OF r st [OF True], of "count_table ?rows"] ne
      show ?thesis
        by (simp add: Update_def Let_def fr tick_inv_def fate_table_def)
    next
      case fp: False
      let ?g1 = "?g\<lparr>FeedPhase := True\<rparr>"
      from lifeOn_valid [of ?g1] v obtain e f where
        "lifeOn ?g1 = Inr (?g1\<lparr>Board := \<lparr>Rows = map (map resolve) ?rows\<rparr>\<rparr>, e, f)"
        by (auto simp add: fr)
      with False fp resolve_inv [OF r v] ne
      show ?thesis
        by (simp add: Update_def Let_def fr tick_inv_def steady_valid)
    qed
  qed
qed

lemma RunGame_inv:
  assumes "tick_inv W g"
  shows "\<exists>phs g'. RunGame kss g = Inr (phs, g') \<and> tick_inv W g'"
  using assms
proof (induction kss arbitrary: g)
  case Nil
  then show ?case by simp
next
  case (Cons ks kss)
  from Update_inv [OF Cons.prems, of ks] obtain ph g1 where
    u: "Update ks g = Inr (ph, g1)" and i: "tick_inv W g1" by blast
  from Cons.IH [OF i] obtain phs g' where "RunGame kss g1 = Inr (phs, g')" "tick_inv W g'"
    by blast
  with u show ?case by simp
qed

lemma RunGame_alternates:
  assumes "tick_inv W g" and "\<not> Paused g" and "\<forall>ks\<in>set kss. \<not> KeySpace ks"
  shows "\<exists>g'. RunGame kss g = Inr (phases_from (FeedPhase g) (length kss), g')
              \<and> FeedPhase g' = (if even (length kss) then FeedPhase g else \<not> FeedPhase g)"
  using assms
proof (induction kss arbitrary: g)
  case Nil
  then show ?case by simp
next
  case (Cons ks kss)
  then have np: "\<not> Paused (processInput ks g)" by (simp add: processInput_no_space)
  from Update_inv [OF Cons.prems(1), of ks] np obtain g1 where
    u: "Update ks g = Inr (Some (if FeedPhase g then Mark else Resolve), g1)"
    and i: "tick_inv W g1" and p: "\<not> Paused g1" and f: "FeedPhase g1 = (\<not> FeedPhase g)"
    by auto
  from Cons.IH [OF i p] Cons.prems(3) obtain g' where
    "RunGame kss g1 = Inr (phases_from (FeedPhase g1) (length kss), g')"
    "FeedPhase g' = (if even (length kss) then FeedPhase g1 else \<not> FeedPhase g1)" by auto
  with u f show ?case by simp
qed

lemma phases_from_nth:
  "k < n \<Longrightarrow> phases_from fp n ! k = Some (if even k = fp then Mark else Resolve)"
proof (induction n arbitrary: k fp)
  case 0
  then show ?case by simp
next
  case (Suc n)
  then show ?case by (cases k) auto
qed

lemma length_phases_from: "length (phases_from fp n) = n"
  by (induction n arbitrary: fp) simp_all

section \<open>The claims\<close>

text \<open>
  Claim C1. On every grid (at least one row, all rows of the same width \<open>W\<close>) whose cells
  are all Empty or Alive, the counting part of \<open>feed\<close> returns a count board of the grid's
  dimensions whose entry at every cell equals, read as a number, the naive scan of the eight
  toroidally wrapped neighbours. In particular, when the cell at \<open>(0,0)\<close> is Alive it is counted
  at \<open>(height-1, 0)\<close>, \<open>(0, width-1)\<close> and \<open>(height-1, width-1)\<close>.
\<close>

theorem feed_count_is_naive_scan:
  assumes ne: "rows \<noteq> []" and r: "rect W rows" and s: "steady rows"
  shows "\<exists>countBoard. feed_count rows = Inr countBoard
           \<and> length countBoard = length rows
           \<and> (\<forall>i<length rows. length (countBoard ! i) = W
                \<and> (\<forall>j<W. unat (countBoard ! i ! j) = naive_count rows i j))
           \<and> (0 < W \<and> rows ! 0 ! 0 = CellAlive \<longrightarrow>
                  1 \<le> unat (countBoard ! (length rows - 1) ! 0)
                \<and> 1 \<le> unat (countBoard ! 0 ! (W - 1))
                \<and> 1 \<le> unat (countBoard ! (length rows - 1) ! (W - 1)))"
proof -
  let ?H = "length rows"
  let ?cb = "count_table rows"
  have H: "0 < ?H" using ne by simp
  have shape: "length ?cb = ?H" "\<forall>i<?H. length (?cb ! i) = W"
    using r by (simp_all add: count_table_shape rect_nth)
  have cnt: "unat (?cb ! i ! j) = naive_count rows i j" if "i < ?H" "j < W" for i j
    using that by (rule count_table_naive [OF r s])
  have wrap: "1 \<le> unat (?cb ! (?H - 1) ! 0) \<and> 1 \<le> unat (?cb ! 0 ! (W - 1))
                \<and> 1 \<le> unat (?cb ! (?H - 1) ! (W - 1))"
    if W: "0 < W" and a: "rows ! 0 ! 0 = CellAlive"
  proof -
    have len: "length (rows ! (?H - 1)) = W" "length (rows ! 0) = W"
      using r H by (simp_all add: rect_nth)
    have "value_of (rows ! 0 ! 0) = 1" using a by (simp add: value_of_def)
    with naive_count_wrap [OF H W len] show ?thesis
      using H W by (simp add: cnt)
  qed
  show ?thesis
    using feed_count_rect [OF r ne] shape cnt wrap by auto
qed

theorem feed_count_is_naive_scan_witness:
  "\<exists>countBoard. feed_count [[1, 0, 0], [0, 0, 1], [0, 0, 0], [0, 1, 0]] = Inr countBoard
     \<and> length countBoard = 4
     \<and> unat (countBoard ! 1 ! 1) = naive_count [[1, 0, 0], [0, 0, 1], [0, 0, 0], [0, 1, 0]] 1 1
     \<and> 1 \<le> unat (countBoard ! 3 ! 0)
     \<and> 1 \<le> unat (countBoard ! 0 ! 2)
     \<and> 1 \<le> unat (countBoard ! 3 ! 2)"
proof -
  let ?rows = "[[1, 0, 0], [0, 0, 1], [0, 0, 0], [0, 1, 0]] :: Row list"
  have "?rows \<noteq> []" "rect 3 ?rows" "steady ?rows"
    by (simp_all add: rect_def steady_def steady_cell_def CellEmpty_def CellAlive_def)
  from feed_count_is_naive_scan [OF this] obtain cb where
    cb: "feed_count ?rows = Inr cb" "length cb = length ?rows"
    and cnt: "\<forall>i<length ?rows. length (cb ! i) = 3
                \<and> (\<forall>j<3. unat (cb ! i ! j) = naive_count ?rows i j)"
    and wrap: "0 < (3::nat) \<and> ?rows ! 0 ! 0 = CellAlive \<longrightarrow>
                  1 \<le> unat (cb ! (length ?rows - 1) ! 0)
                \<and> 1 \<le> unat (cb ! 0 ! (3 - 1))
                \<and> 1 \<le> unat (cb ! (length ?rows - 1) ! (3 - 1))"
    by blast
  have "1 < length ?rows" by simp
  with cnt have "\<forall>j<3. unat (cb ! 1 ! j) = naive_count ?rows 1 j" by blast
  then have c11: "unat (cb ! 1 ! 1) = naive_count ?rows 1 1" by simp
  have "0 < (3::nat) \<and> ?rows ! 0 ! 0 = CellAlive" by (simp add: CellAlive_def)
  with wrap have "1 \<le> unat (cb ! (length ?rows - 1) ! 0)
                \<and> 1 \<le> unat (cb ! 0 ! (3 - 1))
                \<and> 1 \<le> unat (cb ! (length ?rows - 1) ! (3 - 1))"
    by blast
  moreover have "length ?rows - 1 = 3" "(3::nat) - 1 = 2" by simp_all
  ultimately have "1 \<le> unat (cb ! 3 ! 0) \<and> 1 \<le> unat (cb ! 0 ! 2) \<and> 1 \<le> unat (cb ! 3 ! 2)"
    by (simp only:)
  with cb c11 show ?thesis by simp
qed

text \<open>
  Claim C2. In the mark sub-phase, on every grid whose cells are all Empty or Alive, \<open>feed\<close>
  returns a grid of the same dimensions in which every Empty cell whose naive neighbour
  count is exactly 3 has become Born and every other Empty cell is still Empty, and every
  Alive cell with count 2 or 3 is still Alive and every other Alive cell has become Dying.
  The other fields of the game are unchanged.
\<close>

theorem feed_marks_by_life_rule:
  assumes ne: "Rows (Board g) \<noteq> []" and r: "rect W (Rows (Board g))"
    and s: "steady (Rows (Board g))"
  shows "\<exists>g'. feed g = Inr g'
           \<and> FeedPhase g' = FeedPhase g \<and> Paused g' = Paused g \<and> Speed g' = Speed g
           \<and> length (Rows (Board g')) = length (Rows (Board g))
           \<and> (\<forall>i<length (Rows (Board g)). length (Rows (Board g') ! i) = W
                \<and> (\<forall>j<W.
                     (Rows (Board g) ! i ! j = CellEmpty \<longrightarrow>
                        Rows (Board g') ! i ! j =
                          (if naive_count (Rows (Board g)) i j = 3 then CellBorn else CellEmpty))
                   \<and> (Rows (Board g) ! i ! j = CellAlive \<longrightarrow>
                        Rows (Board g') ! i ! j =
                          (if naive_count (Rows (Board g)) i j = 2
                              \<or> naive_count (Rows (Board g)) i j = 3
                           then CellAlive else CellDying))))"
proof -
  let ?rows = "Rows (Board g)"
  let ?cb = "count_table ?rows"
  let ?g' = "g\<lparr>Board := \<lparr>Rows = fate_table ?cb ?rows\<rparr>\<rparr>"
  have fd: "feed g = Inr ?g'" by (rule feed_steady [OF r ne s])
  have cell: "fate_table ?cb ?rows ! i ! j = fate (?rows ! i ! j) (?cb ! i ! j)"
    and cnt: "unat (?cb ! i ! j) = naive_count ?rows i j"
    if "i < length ?rows" "j < W" for i j
    using that r by (simp_all add: fate_table_nth rect_nth count_table_naive [OF r s])
  have len: "length (fate_table ?cb ?rows ! i) = W" if "i < length ?rows" for i
    using that r by (simp add: fate_table_shape rect_nth)
  show ?thesis
    by (rule exI [of _ ?g']) (simp add: fd fate_table_shape(1) len cell fate_naive cnt)
qed

theorem feed_marks_by_life_rule_witness:
  "\<exists>g'. feed \<lparr>Board = \<lparr>Rows = [[1, 1, 0, 0, 0], [1, 0, 0, 0, 0], [0, 0, 0, 1, 0],
                                 [0, 0, 0, 0, 0], [0, 0, 0, 0, 0]]\<rparr>,
               FeedPhase = False, Paused = False, Speed = 10\<rparr> = Inr g'
     \<and> Rows (Board g') ! 1 ! 1 = CellBorn
     \<and> Rows (Board g') ! 3 ! 3 = CellEmpty
     \<and> Rows (Board g') ! 0 ! 0 = CellAlive
     \<and> Rows (Board g') ! 2 ! 3 = CellDying"
proof -
  let ?rows = "[[1, 1, 0, 0, 0], [1, 0, 0, 0, 0], [0, 0, 0, 1, 0],
                [0, 0, 0, 0, 0], [0, 0, 0, 0, 0]] :: Row list"
  let ?g = "\<lparr>Board = \<lparr>Rows = ?rows\<rparr>, FeedPhase = False, Paused = False, Speed = 10\<rparr>"
  have h: "Rows (Board ?g) \<noteq> []" "rect 5 (Rows (Board ?g))" "steady (Rows (Board ?g))"
    by (simp_all add: rect_def steady_def steady_cell_def CellEmpty_def CellAlive_def)
  from feed_marks_by_life_rule [OF h] obtain g' where
    fd: "feed ?g = Inr g'"
    and rule: "\<forall>i<length ?rows. length (Rows (Board g') ! i) = 5
                \<and> (\<forall>j<5.
                     (?rows ! i ! j = CellEmpty \<longrightarrow>
                        Rows (Board g') ! i ! j =
                          (if naive_count ?rows i j = 3 then CellBorn else CellEmpty))
                   \<and> (?rows ! i ! j = CellAlive \<longrightarrow>
                        Rows (Board g') ! i ! j =
                          (if naive_count ?rows i j = 2 \<or> naive_count ?rows i j = 3
                           then CellAlive else CellDying)))"
    by auto
  have cellE: "Rows (Board g') ! i ! j =
                 (if naive_count ?rows i j = 3 then CellBorn else CellEmpty)"
    if "i < length ?rows" "j < 5" "?rows ! i ! j = CellEmpty" for i j
    using rule that by blast
  have cellA: "Rows (Board g') ! i ! j =
                 (if naive_count ?rows i j = 2 \<or> naive_count ?rows i j = 3
                  then CellAlive else CellDying)"
    if "i < length ?rows" "j < 5" "?rows ! i ! j = CellAlive" for i j
    using rule that by blast
  have n: "naive_count ?rows 1 1 = 3" "naive_count ?rows 3 3 = 1"
    "naive_count ?rows 0 0 = 2" "naive_count ?rows 2 3 = 0"
    by (simp_all add: naive_count_def neighborIndices_def value_of_def CellAlive_def)
  have "Rows (Board g') ! 1 ! 1 = (if naive_count ?rows 1 1 = 3 then CellBorn else CellEmpty)"
    by (rule cellE) (simp_all add: CellEmpty_def)
  then have c11: "Rows (Board g') ! 1 ! 1 = CellBorn" unfolding n by simp
  have "Rows (Board g') ! 3 ! 3 = (if naive_count ?rows 3 3 = 3 then CellBorn else CellEmpty)"
    by (rule cellE) (simp_all add: CellEmpty_def)
  then have c33: "Rows (Board g') ! 3 ! 3 = CellEmpty" unfolding n by simp
  have "Rows (Board g') ! 0 ! 0 =
          (if naive_count ?rows 0 0 = 2 \<or> naive_count ?rows 0 0 = 3
           then CellAlive else CellDying)"
    by (rule cellA) (simp_all add: CellAlive_def)
  then have c00: "Rows (Board g') ! 0 ! 0 = CellAlive" unfolding n by simp
  have "Rows (Board g') ! 2 ! 3 =
          (if naive_count ?rows 2 3 = 2 \<or> naive_count ?rows 2 3 = 3
           then CellAlive else CellDying)"
    by (rule cellA) (simp_all add: CellAlive_def)
  then have c23: "Rows (Board g') ! 2 ! 3 = CellDying" unfolding n by simp
  from fd c11 c33 c00 c23 show ?thesis by simp
qed

text \<open>
  Claim C3, as amended. The claim says that the first tick runs the mark sub-phase. In the
  code \<open>NewGame\<close> sets \<open>FeedPhase\<close> to false, so the first tick runs \<open>lifeOn\<close>: starting from
  the initial state of a grid with at least one row, and as long as the pause key is not
  pressed, no tick panics and the ticks strictly alternate in the order resolve, mark,
  resolve, mark, ...; the flag after \<open>n\<close> ticks says mark-next exactly when \<open>n\<close> is odd.
\<close>

theorem ticks_alternate_resolve_first:
  assumes c: "0 \<le> nColumns" and r: "1 \<le> nRows"
    and ns: "\<forall>ks\<in>set kss. \<not> KeySpace ks"
  shows "\<exists>phs g. play rnd nColumns nRows kss = Inr (phs, g)
           \<and> length phs = length kss
           \<and> (\<forall>k<length kss. phs ! k = Some (if even k then Resolve else Mark))
           \<and> FeedPhase g = odd (length kss)"
proof -
  from NewGame_inv [OF c r, of rnd] obtain g0 where
    n: "NewGame rnd nColumns nRows = Inr g0" and i: "tick_inv (nat nColumns) g0"
    and f: "\<not> FeedPhase g0" and p: "\<not> Paused g0" by blast
  from RunGame_alternates [OF i p ns] obtain g where
    run0: "RunGame kss g0 = Inr (phases_from (FeedPhase g0) (length kss), g)"
    and fin0: "FeedPhase g = (if even (length kss) then FeedPhase g0 else \<not> FeedPhase g0)"
    by blast
  from run0 f have run: "RunGame kss g0 = Inr (phases_from False (length kss), g)" by simp
  from fin0 f have fin: "FeedPhase g = odd (length kss)" by simp
  show ?thesis
    by (simp add: play_def n run fin length_phases_from phases_from_nth)
qed

theorem ticks_alternate_resolve_first_witness:
  "\<exists>phs g. play id 2 2 [no_keys, left_key, no_keys] = Inr (phs, g)
     \<and> length phs = 3
     \<and> phs ! 0 = Some Resolve \<and> phs ! 1 = Some Mark \<and> phs ! 2 = Some Resolve
     \<and> FeedPhase g"
proof -
  let ?kss = "[no_keys, left_key, no_keys]"
  have h: "(0::int) \<le> 2" "(1::int) \<le> 2" "\<forall>ks\<in>set ?kss. \<not> KeySpace ks"
    by (simp_all add: no_keys_def left_key_def)
  from ticks_alternate_resolve_first [OF h, of id] obtain phs g where
    p: "play id 2 2 ?kss = Inr (phs, g)" and l: "length phs = length ?kss"
    and a: "\<forall>k<length ?kss. phs ! k = Some (if even k then Resolve else Mark)"
    and f: "FeedPhase g = odd (length ?kss)"
    by blast
  have "phs ! 0 = Some Resolve" "phs ! 1 = Some Mark" "phs ! 2 = Some Resolve"
    using a by simp_all
  with p l f show ?thesis by simp
qed

text \<open>
  The claim as stated fails on a 2 by 2 game: the first two ticks run resolve and then
  mark, not mark and then resolve.
\<close>

theorem first_tick_counterexample:
  "map_sum id fst (play id 2 2 [no_keys, no_keys]) = Inr [Some Resolve, Some Mark]
   \<and> map_sum id fst (play id 2 2 [no_keys, no_keys]) \<noteq> Inr [Some Mark, Some Resolve]"
  by code_simp

text \<open>
  Claim C4, as amended. On the 5 by 5 blinker the mark sub-phase turns the two end cells
  \<open>(2,1)\<close> and \<open>(2,3)\<close> (one live neighbour each) to Dying and the cells \<open>(1,2)\<close> and \<open>(3,2)\<close>
  (three live neighbours each) to Born; the middle cell \<open>(2,2)\<close> has two live neighbours and
  stays Alive; all other cells stay Empty. The following resolve sub-phase leaves the
  vertical Alive triple at column 2, rows 1 to 3, and logs 22 empty and 3 filled cells.
\<close>

theorem blinker_mark_then_resolve:
  "feed (game_of blinker) = Inr (game_of blinker_marked)
   \<and> lifeOn (game_of blinker_marked) = Inr (game_of blinker_resolved, 22, 3)
   \<and> map (naive_count blinker 2) [1, 2, 3] = [1, 2, 1]
   \<and> naive_count blinker 1 2 = 3 \<and> naive_count blinker 3 2 = 3"
  by code_simp

text \<open>
  The claim as stated has all three blinker cells Dying after the mark sub-phase, each with
  one live neighbour; \<open>feed\<close> does not return that board, and the middle cell does not have
  one live neighbour.
\<close>

theorem blinker_middle_cell_counterexample:
  "feed (game_of blinker) \<noteq> Inr (game_of blinker_marked_claimed)
   \<and> naive_count blinker 2 2 \<noteq> 1"
  by code_simp

text \<open>
  Claim C5. On every board that contains a Born or a Dying cell, \<open>feed\<close> does not return: it
  panics. On a grid (all rows of one width) the panic is the explicit
  \<open>wrong cell value ... at feed phase\<close> one, raised for a cell that is neither Empty nor Alive.
\<close>

theorem feed_panics_on_transitional:
  assumes i: "i < length (Rows (Board g))" and j: "j < length (Rows (Board g) ! i)"
    and c: "Rows (Board g) ! i ! j = CellBorn \<or> Rows (Board g) ! i ! j = CellDying"
  shows "(\<exists>e. feed g = Inl e)
         \<and> (rect W (Rows (Board g)) \<longrightarrow>
              (\<exists>c. feed g = Inl (WrongCellFeed c) \<and> c \<noteq> CellEmpty \<and> c \<noteq> CellAlive))"
proof -
  let ?rows = "Rows (Board g)"
  have "\<not> steady_cell (?rows ! i ! j)"
    using c by (auto simp add: steady_cell_def CellEmpty_def CellAlive_def CellBorn_def CellDying_def)
  then have ns: "\<not> steady ?rows"
    using i j by (auto simp add: steady_def list_all_length)
  have ne: "?rows \<noteq> []" using i by auto
  show ?thesis
    using feed_unsteady [OF ns] feed_unsteady_rect [OF _ ne ns, of W]
    by (simp add: steady_cell_def)
qed

theorem feed_panics_on_transitional_witness:
  "(\<exists>e. feed (game_of [[0, 1, 0], [0, 2, 0], [0, 0, 0]]) = Inl e)
   \<and> (\<exists>c. feed (game_of [[0, 1, 0], [0, 2, 0], [0, 0, 0]]) = Inl (WrongCellFeed c)
            \<and> c \<noteq> CellEmpty \<and> c \<noteq> CellAlive)"
proof -
  let ?rows = "[[0, 1, 0], [0, 2, 0], [0, 0, 0]] :: Row list"
  let ?g = "game_of ?rows"
  have h: "1 < length (Rows (Board ?g))" "1 < length (Rows (Board ?g) ! 1)"
    "Rows (Board ?g) ! 1 ! 1 = CellBorn \<or> Rows (Board ?g) ! 1 ! 1 = CellDying"
    by (simp_all add: game_of_def CellBorn_def)
  have r: "rect 3 (Rows (Board ?g))" by (simp add: game_of_def rect_def)
  from feed_panics_on_transitional [OF h, of 3] r show ?thesis by blast
qed

text \<open>
  Claim C6, as amended. \<open>NewBoard\<close> does not check its arguments. With lengths up to those
  of the grid that the program creates (at most \<open>Columns\<close> columns and \<open>Rows_const\<close> rows): for
  a non-negative number of rows and of columns it returns the grid of those dimensions with
  every cell Empty, also when a dimension is 0; with no row at all it returns the empty
  board whatever the number of columns. It is rejected, by the run-time panic of \<open>make\<close>,
  when the number of rows is negative, and when the number of columns is negative and there
  is at least one row. Lengths beyond these, where \<open>make\<close> can fail for lack of room, are
  left out of the statement.
\<close>

theorem NewBoard_result:
  "(nRows < 0 \<longrightarrow> NewBoard nColumns nRows = Inl MakeSliceLen)
   \<and> (nRows = 0 \<longrightarrow> NewBoard nColumns nRows = Inr \<lparr>Rows = []\<rparr>)
   \<and> (0 < nRows \<and> nRows \<le> Rows_const \<and> nColumns < 0 \<longrightarrow>
         NewBoard nColumns nRows = Inl MakeSliceLen)
   \<and> (0 \<le> nRows \<and> nRows \<le> Rows_const \<and> 0 \<le> nColumns \<and> nColumns \<le> Columns \<longrightarrow>
         NewBoard nColumns nRows =
           Inr \<lparr>Rows = replicate (nat nRows) (replicate (nat nColumns) CellEmpty)\<rparr>)"
proof -
  have "NewBoard nColumns nRows = Inl MakeSliceLen" if "nRows < 0"
    using that by (simp add: NewBoard_def make_slice_def)
  moreover have "NewBoard nColumns nRows = Inr \<lparr>Rows = []\<rparr>" if "nRows = 0"
    using that by (simp add: NewBoard_def make_slice_def)
  moreover have "NewBoard nColumns nRows = Inl MakeSliceLen" if "0 < nRows" "nColumns < 0"
    using that by (simp add: NewBoard_negative_columns)
  moreover have "NewBoard nColumns nRows =
      Inr \<lparr>Rows = replicate (nat nRows) (replicate (nat nColumns) CellEmpty)\<rparr>"
    if "0 \<le> nRows" "0 \<le> nColumns"
    using that by (simp add: NewBoard_nonneg)
  ultimately show ?thesis by blast
qed

theorem NewBoard_result_witness:
  "NewBoard 3 (- 1) = Inl MakeSliceLen
   \<and> NewBoard (- 1) 0 = Inr \<lparr>Rows = []\<rparr>
   \<and> NewBoard (- 1) 2 = Inl MakeSliceLen
   \<and> NewBoard 3 2 = Inr \<lparr>Rows = replicate (nat 2) (replicate (nat 3) CellEmpty)\<rparr>
   \<and> NewBoard Columns Rows_const =
       Inr \<lparr>Rows = replicate (nat Rows_const) (replicate (nat Columns) CellEmpty)\<rparr>"
proof -
  have "NewBoard 3 (- 1) = Inl MakeSliceLen"
    using NewBoard_result [of "- 1" 3] by simp
  moreover have "NewBoard (- 1) 0 = Inr \<lparr>Rows = []\<rparr>"
    using NewBoard_result [of 0 "- 1"] by simp
  moreover have "NewBoard (- 1) 2 = Inl MakeSliceLen"
    using NewBoard_result [of 2 "- 1"] by (simp add: Rows_const_def)
  moreover have "NewBoard 3 2 = Inr \<lparr>Rows = replicate (nat 2) (replicate (nat 3) CellEmpty)\<rparr>"
    using NewBoard_result [of 2 3] by (simp add: Rows_const_def Columns_def)
  moreover have "NewBoard Columns Rows_const =
       Inr \<lparr>Rows = replicate (nat Rows_const) (replicate (nat Columns) CellEmpty)\<rparr>"
    using NewBoard_result [of Rows_const Columns] by (simp add: Rows_const_def Columns_def)
  ultimately show ?thesis by (simp only: simp_thms)
qed

text \<open>
  The claim as stated says that a width or height below 1 is rejected; width 0 and height 0
  both return a board.
\<close>

theorem NewBoard_zero_counterexample:
  "NewBoard 0 5 = Inr \<lparr>Rows = [[], [], [], [], []]\<rparr> \<and> NewBoard 5 0 = Inr \<lparr>Rows = []\<rparr>"
  by code_simp

text \<open>
  Claim C7. \<open>NewGame\<close> sets the speed to 10. In every state whose speed is within \<open>[1, 60]\<close>, a
  speed-down request (left key, the pause key not pressed) lowers the speed by exactly 1,
  except that speed 1 stays 1; a speed-up request (right key, neither of the other two keys
  pressed) raises it by exactly 1, except that speed 60 stays 60; the speed stays within
  \<open>[1, 60]\<close>. \<open>processInput\<close> has no failing path, so no error is reported.
\<close>

theorem speed_saturates:
  assumes lo: "1 \<le> Speed g" and hi: "Speed g \<le> MaxTPS"
  shows "(\<not> KeySpace ks \<and> KeyLeft ks \<longrightarrow>
            Speed (processInput ks g) = (if Speed g = 1 then 1 else Speed g - 1))
       \<and> (\<not> KeySpace ks \<and> \<not> KeyLeft ks \<and> KeyRight ks \<longrightarrow>
            Speed (processInput ks g) = (if Speed g = 60 then 60 else Speed g + 1))
       \<and> 1 \<le> Speed (processInput ks g) \<and> Speed (processInput ks g) \<le> 60
       \<and> (0 \<le> nColumns \<and> 0 \<le> nRows \<longrightarrow>
            (\<exists>g0. NewGame rnd nColumns nRows = Inr g0 \<and> Speed g0 = 10))
       \<and> (\<forall>g0. NewGame rnd nColumns nRows = Inr g0 \<longrightarrow> Speed g0 = 10)"
proof -
  have new: "\<exists>g0. NewGame rnd nColumns nRows = Inr g0 \<and> Speed g0 = 10"
    if "0 \<le> nColumns" "0 \<le> nRows"
    using that by (simp add: NewGame_def NewBoard_nonneg)
  have init: "Speed g0 = 10" if "NewGame rnd nColumns nRows = Inr g0" for g0
    using that by (auto simp add: NewGame_def bindP_def split: sum.splits)
  have "(\<not> KeySpace ks \<and> KeyLeft ks \<longrightarrow>
            Speed (processInput ks g) = (if Speed g = 1 then 1 else Speed g - 1))
       \<and> (\<not> KeySpace ks \<and> \<not> KeyLeft ks \<and> KeyRight ks \<longrightarrow>
            Speed (processInput ks g) = (if Speed g = 60 then 60 else Speed g + 1))
       \<and> 1 \<le> Speed (processInput ks g) \<and> Speed (processInput ks g) \<le> 60"
    using processInput_speed [OF lo hi, of ks] by blast
  with new init show ?thesis by blast
qed

theorem speed_saturates_witness:
  "Speed (processInput \<lparr>KeySpace = False, KeyLeft = True, KeyRight = False\<rparr> (game_of [[0]])) = 9
   \<and> Speed (processInput \<lparr>KeySpace = False, KeyLeft = True, KeyRight = False\<rparr>
             ((game_of [[0]])\<lparr>Speed := 1\<rparr>)) = 1
   \<and> Speed (processInput \<lparr>KeySpace = False, KeyLeft = False, KeyRight = True\<rparr>
             ((game_of [[0]])\<lparr>Speed := 60\<rparr>)) = 60
   \<and> Speed (processInput \<lparr>KeySpace = False, KeyLeft = False, KeyRight = True\<rparr> (game_of [[0]])) = 11
   \<and> NewGame id 1 1 = Inr (game_of [[0]]) \<and> Speed (game_of [[0]]) = 10"
proof -
  let ?l = "\<lparr>KeySpace = False, KeyLeft = True, KeyRight = False\<rparr>"
  let ?r = "\<lparr>KeySpace = False, KeyLeft = False, KeyRight = True\<rparr>"
  let ?g = "game_of [[0]]"
  have s: "Speed ?g = 10" "Speed (?g\<lparr>Speed := 1\<rparr>) = 1" "Speed (?g\<lparr>Speed := 60\<rparr>) = 60"
    by (simp_all add: game_of_def)
  have n: "NewGame id 1 1 = Inr ?g" by code_simp
  note sat = speed_saturates [where rnd = id and nColumns = 1 and nRows = 1]
  have "Speed (processInput ?l ?g) = 9"
    using sat [where g = ?g and ks = ?l]
    by (simp add: s MaxTPS_def)
  moreover have "Speed (processInput ?l (?g\<lparr>Speed := 1\<rparr>)) = 1"
    using sat [where g = "?g\<lparr>Speed := 1\<rparr>" and ks = ?l]
    by (simp add: s MaxTPS_def)
  moreover have "Speed (processInput ?r (?g\<lparr>Speed := 60\<rparr>)) = 60"
    using sat [where g = "?g\<lparr>Speed := 60\<rparr>" and ks = ?r]
    by (simp add: s MaxTPS_def)
  moreover have "Speed (processInput ?r ?g) = 11"
    using sat [where g = ?g and ks = ?r]
    by (simp add: s MaxTPS_def)
  moreover have "Speed ?g = 10"
    using sat [where g = ?g and ks = ?r] n
    by (simp add: s MaxTPS_def)
  ultimately show ?thesis using n by simp
qed

text \<open>
  Claim C8, as amended. \<open>Update\<close> processes the input before it tests the paused flag. So in
  a paused state a tick whose input is not the pause key runs no sub-phase and leaves the
  grid and the phase flag unchanged, and it stays paused, while a speed request of that tick
  is applied: with the speed within \<open>[1, 60]\<close>, as it is in every state the program reaches,
  one down but 1 at 1, one up but 60 at 60. A tick with the pause key pressed clears the flag
  first, and that same tick then runs the sub-phase selected by the phase flag and flips the
  flag.
\<close>

theorem paused_tick:
  assumes p: "Paused g"
  shows "(\<not> KeySpace ks \<longrightarrow>
            Update ks g = Inr (None, processInput ks g)
          \<and> Board (processInput ks g) = Board g
          \<and> FeedPhase (processInput ks g) = FeedPhase g
          \<and> Paused (processInput ks g))
       \<and> (1 \<le> Speed g \<and> Speed g \<le> MaxTPS \<and> \<not> KeySpace ks \<and> KeyLeft ks \<longrightarrow>
            Speed (processInput ks g) = (if Speed g = 1 then 1 else Speed g - 1))
       \<and> (1 \<le> Speed g \<and> Speed g \<le> MaxTPS
            \<and> \<not> KeySpace ks \<and> \<not> KeyLeft ks \<and> KeyRight ks \<longrightarrow>
            Speed (processInput ks g) = (if Speed g = 60 then 60 else Speed g + 1))
       \<and> (KeySpace ks \<longrightarrow>
            \<not> Paused (processInput ks g)
          \<and> (\<forall>ph g'. Update ks g = Inr (ph, g') \<longrightarrow>
                ph = Some (if FeedPhase g then Mark else Resolve)
              \<and> FeedPhase g' = (\<not> FeedPhase g) \<and> \<not> Paused g'))"
proof -
  have a: "Update ks g = Inr (None, processInput ks g) \<and> Paused (processInput ks g)"
    if "\<not> KeySpace ks"
    using that p by (simp add: Update_def processInput_def Let_def)
  have b: "\<not> Paused (processInput ks g)" if "KeySpace ks"
    using that p by (simp add: processInput_def)
  have c: "ph = Some (if FeedPhase g then Mark else Resolve)
              \<and> FeedPhase g' = (\<not> FeedPhase g) \<and> \<not> Paused g'"
    if "KeySpace ks" "Update ks g = Inr (ph, g')" for ph g'
    using Update_unpaused [OF b [OF that(1)] that(2)] .
  have d: "Speed (processInput ks g) = (if Speed g = 1 then 1 else Speed g - 1)"
    if "1 \<le> Speed g" "Speed g \<le> MaxTPS" "\<not> KeySpace ks" "KeyLeft ks"
    using that by (rule processInput_speed(1))
  have e: "Speed (processInput ks g) = (if Speed g = 60 then 60 else Speed g + 1)"
    if "1 \<le> Speed g" "Speed g \<le> MaxTPS" "\<not> KeySpace ks" "\<not> KeyLeft ks" "KeyRight ks"
    using that by (rule processInput_speed(2))
  have f: "Board (processInput ks g) = Board g" "FeedPhase (processInput ks g) = FeedPhase g"
    by (rule processInput_frame)+
  show ?thesis using a b c d e f by blast
qed

theorem paused_tick_witness:
  "Update left_key paused_game = Inr (None, processInput left_key paused_game)
   \<and> Board (processInput left_key paused_game) = Board paused_game
   \<and> FeedPhase (processInput left_key paused_game) = FeedPhase paused_game
   \<and> Paused (processInput left_key paused_game)
   \<and> Speed (processInput left_key paused_game) = 9
   \<and> \<not> Paused (processInput space_key paused_game)"
proof -
  have p: "Paused paused_game" by (simp add: paused_game_def)
  have l: "\<not> KeySpace left_key" "KeyLeft left_key" and s: "KeySpace space_key"
    by (simp_all add: left_key_def space_key_def)
  have b: "1 \<le> Speed paused_game" "Speed paused_game \<le> MaxTPS" "Speed paused_game = 10"
    by (simp_all add: paused_game_def MaxTPS_def)
  from paused_tick [OF p, of left_key] l
  have "Update left_key paused_game = Inr (None, processInput left_key paused_game)
          \<and> Board (processInput left_key paused_game) = Board paused_game
          \<and> FeedPhase (processInput left_key paused_game) = FeedPhase paused_game
          \<and> Paused (processInput left_key paused_game)"
    by blast
  moreover from paused_tick [OF p, of left_key] l b(1,2)
  have "Speed (processInput left_key paused_game) =
          (if Speed paused_game = 1 then 1 else Speed paused_game - 1)"
    by blast
  then have "Speed (processInput left_key paused_game) = 9" unfolding b(3) by simp
  moreover from paused_tick [OF p, of space_key] s
  have "\<not> Paused (processInput space_key paused_game)" by blast
  ultimately show ?thesis by (simp only: simp_thms)
qed

text \<open>
  The claim as stated fails for a paused state and a tick with the pause key pressed: the
  tick runs the resolve sub-phase, which changes the grid, and flips the phase flag.
\<close>

theorem paused_tick_counterexample:
  "Paused paused_game
   \<and> Update space_key paused_game =
       Inr (Some Resolve,
            \<lparr>Board = \<lparr>Rows = [[CellEmpty]]\<rparr>, FeedPhase = True, Paused = False, Speed = 10\<rparr>)"
  by code_simp

text \<open>
  Claim C9. On every board whose cells are all Empty or Alive, \<open>lifeOn\<close> returns and leaves
  the game, and so every cell, unchanged.
\<close>

theorem lifeOn_steady_unchanged:
  assumes s: "steady (Rows (Board g))"
  shows "\<exists>empty filled. lifeOn g = Inr (g, empty, filled)"
proof -
  let ?rows = "Rows (Board g)"
  have "map (map resolve) ?rows = ?rows"
    using s by (auto simp add: steady_def list_all_iff resolve_steady intro!: map_idI)
  then have same: "g\<lparr>Board := \<lparr>Rows = map (map resolve) ?rows\<rparr>\<rparr> = g" by simp
  have "case lifeOn g of
     Inl x \<Rightarrow> \<not> valid ?rows
   | Inr r \<Rightarrow> valid ?rows \<and> fst r = g\<lparr>Board := \<lparr>Rows = map (map resolve) ?rows\<rparr>\<rparr>"
    by (rule lifeOn_cases)
  with steady_valid [OF s] same show ?thesis
    by (cases "lifeOn g") auto
qed

theorem lifeOn_steady_unchanged_witness:
  "\<exists>empty filled. lifeOn (game_of [[0, 1, 1], [1, 0, 0]]) = Inr (game_of [[0, 1, 1], [1, 0, 0]], empty, filled)"
proof -
  have "steady (Rows (Board (game_of [[0, 1, 1], [1, 0, 0]])))"
    by (simp add: game_of_def steady_def steady_cell_def CellEmpty_def CellAlive_def)
  from lifeOn_steady_unchanged [OF this] show ?thesis .
qed

text \<open>
  Claim C10. The initial state of \<open>NewGame\<close> (at least one row) has the flag at
  resolve-next and a grid holding any of the four cell values; \<open>lifeOn\<close>, as the first
  unpaused tick calls it, returns on that grid and leaves every cell Empty or Alive. Every
  sequence of ticks from the initial state, whatever keys are pressed, runs without panic,
  and in every state it reaches, whenever the next tick is going to call \<open>feed\<close> (not
  paused and flag set once the input is processed) every cell of the grid is Empty or Alive.
\<close>

theorem feed_only_sees_steady_grids:
  assumes c: "0 \<le> nColumns" and r: "1 \<le> nRows"
  shows "\<exists>g0. NewGame rnd nColumns nRows = Inr g0 \<and> \<not> FeedPhase g0
           \<and> valid (Rows (Board g0))
           \<and> (\<exists>g1 empty filled.
                lifeOn (g0\<lparr>FeedPhase := True\<rparr>) = Inr (g1, empty, filled)
                \<and> steady (Rows (Board g1)))
           \<and> (\<forall>kss ks. \<exists>phs g. RunGame kss g0 = Inr (phs, g)
                \<and> (\<not> Paused (processInput ks g) \<and> FeedPhase (processInput ks g) \<longrightarrow>
                     steady (Rows (Board (processInput ks g)))))"
proof -
  from NewGame_inv [OF c r, of rnd] obtain g0 where
    n: "NewGame rnd nColumns nRows = Inr g0" and i: "tick_inv (nat nColumns) g0"
    and f: "\<not> FeedPhase g0" by blast
  from i have v: "valid (Rows (Board g0))" and rc: "rect (nat nColumns) (Rows (Board g0))"
    by (simp_all add: tick_inv_def)
  from lifeOn_valid [of "g0\<lparr>FeedPhase := True\<rparr>"] v resolve_inv [OF rc v]
  have first: "\<exists>g1 empty filled.
                lifeOn (g0\<lparr>FeedPhase := True\<rparr>) = Inr (g1, empty, filled)
                \<and> steady (Rows (Board g1))"
    by auto
  have "\<exists>phs g. RunGame kss g0 = Inr (phs, g)
                \<and> (\<not> Paused (processInput ks g) \<and> FeedPhase (processInput ks g) \<longrightarrow>
                     steady (Rows (Board (processInput ks g))))" for kss ks
  proof -
    from RunGame_inv [OF i, of kss] obtain phs g where
      run: "RunGame kss g0 = Inr (phs, g)" and inv: "tick_inv (nat nColumns) g" by blast
    from inv have "FeedPhase g \<longrightarrow> steady (Rows (Board g))" by (simp add: tick_inv_def)
    with run show ?thesis by (auto simp add: processInput_frame)
  qed
  with n f v first show ?thesis by blast
qed

theorem feed_only_sees_steady_grids_witness:
  "NewGame id 2 2 = Inr filled_game
   \<and> RunGame [no_keys] filled_game = Inr ([Some Resolve], resolved_game)
   \<and> \<not> Paused (processInput no_keys resolved_game)
   \<and> FeedPhase (processInput no_keys resolved_game)
   \<and> steady (Rows (Board (processInput no_keys resolved_game)))"
proof -
  have n: "NewGame id 2 2 = Inr filled_game" by code_simp
  have run: "RunGame [no_keys] filled_game = Inr ([Some Resolve], resolved_game)" by code_simp
  have p: "\<not> Paused (processInput no_keys resolved_game)"
    "FeedPhase (processInput no_keys resolved_game)"
    by (simp_all add: processInput_def no_keys_def resolved_game_def)
  have h: "(0::int) \<le> 2" "(1::int) \<le> 2" by simp_all
  from feed_only_sees_steady_grids [OF h, of id] obtain g0 where
    g0: "NewGame id 2 2 = Inr g0"
    and all: "\<forall>kss ks. \<exists>phs g. RunGame kss g0 = Inr (phs, g)
                \<and> (\<not> Paused (processInput ks g) \<and> FeedPhase (processInput ks g) \<longrightarrow>
                     steady (Rows (Board (processInput ks g))))"
    by blast
  from g0 have "g0 = filled_game" unfolding n by simp
  with all obtain phs g where
    a: "RunGame [no_keys] filled_game = Inr (phs, g)"
    and b: "\<not> Paused (processInput no_keys g) \<and> FeedPhase (processInput no_keys g) \<longrightarrow>
       steady (Rows (Board (processInput no_keys g)))"
    by blast
  from a have "g = resolved_game" unfolding run by simp
  with b p have "steady (Rows (Board (processInput no_keys resolved_game)))" by blast
  with n run p show ?thesis by (simp only: simp_thms)
qed

end
